theory Spec2Isabelle
  imports Main "HOL-Library.Sublist" "HOL-Library.Word" "HOL-Library.AList"
begin

section \<open>Streaming text reconciliation (thread reducer)\<close>

text \<open>
  JavaScript strings are sequences of code units.  The overlap merge only compares,
  slices and concatenates, so it is modelled over lists of an arbitrary element type.
\<close>

definition startsWith :: "'a list \<Rightarrow> 'a list \<Rightarrow> bool" where
  "startsWith s t = (take (length t) s = t)"

definition endsWith :: "'a list \<Rightarrow> 'a list \<Rightarrow> bool" where
  "endsWith s t = (length t \<le> length s \<and> drop (length s - length t) s = t)"

text \<open>
  The loop \<^verbatim>\<open>for (let length = maxOverlap; length > 0; length -= 1)\<close> of
  \<^verbatim>\<open>mergeStreamingText\<close>, with the fall-through \<^verbatim>\<open>return `${existing}${delta}`\<close>
  as the case of the counter reaching zero.
\<close>

fun overlapLoop :: "'a list \<Rightarrow> 'a list \<Rightarrow> nat \<Rightarrow> 'a list" where
  "overlapLoop existing delta 0 = existing @ delta"
| "overlapLoop existing delta (Suc n) =
     (if endsWith existing (take (Suc n) delta)
      then existing @ drop (Suc n) delta
      else overlapLoop existing delta n)"

definition mergeStreamingText :: "'a list \<Rightarrow> 'a list \<Rightarrow> 'a list" where
  "mergeStreamingText existing delta =
     (if delta = [] then existing
      else if existing = [] then delta
      else if delta = existing then existing
      else if startsWith delta existing then delta
      else if startsWith existing delta then existing
      else overlapLoop existing delta (min (length existing) (length delta)))"

section \<open>Ingest normalization of streamed text (thread hook)\<close>

text \<open>
  \<^verbatim>\<open>normalizeStreamingText\<close> works on UTF-16 code units with two regular expressions,
  neither with the unicode flag.  A code unit is a 16-bit word.
\<close>

type_synonym jschar = "16 word"

definition NL :: jschar where "NL = 0x0A"
definition CR :: jschar where "CR = 0x0D"
definition SP :: jschar where "SP = 0x20"

text \<open>The class \<^verbatim>\<open>\s\<close> of ECMAScript: white space and line terminators.\<close>

definition isWhiteSpace :: "jschar \<Rightarrow> bool" where
  "isWhiteSpace c = (c \<in> set [0x09, 0x0A, 0x0B, 0x0C, 0x0D, 0x20, 0xA0, 0x1680,
      0x2000, 0x2001, 0x2002, 0x2003, 0x2004, 0x2005, 0x2006, 0x2007, 0x2008, 0x2009, 0x200A,
      0x2028, 0x2029, 0x202F, 0x205F, 0x3000, 0xFEFF])"

text \<open>The class \<^verbatim>\<open>\d\<close>: the ten ASCII digits.\<close>

definition isDigit :: "jschar \<Rightarrow> bool" where
  "isDigit c = (0x30 \<le> c \<and> c \<le> 0x39)"

text \<open>\<^verbatim>\<open>text.replace(/\r\n/g, "\n")\<close>: one pass from the left over non-overlapping matches.\<close>

fun unifyNewlines :: "jschar list \<Rightarrow> jschar list" where
  "unifyNewlines (c # d # cs) =
     (if c = CR \<and> d = NL then NL # unifyNewlines cs else c # unifyNewlines (d # cs))"
| "unifyNewlines cs = cs"

text \<open>
  The four negative lookaheads of the second expression, each tried on the text after
  the newline: \<^verbatim>\<open>(?!\n)\<close>, \<^verbatim>\<open>(?![-*]\s)\<close>, \<^verbatim>\<open>(?!\d+\.\s)\<close> and the lookahead for three
  backquotes.  In \<^verbatim>\<open>\d+\.\<close> the greedy digits must be followed by the dot, so the digits
  matched are the whole run.
\<close>

definition newlineAhead :: "jschar list \<Rightarrow> bool" where
  "newlineAhead r = (case r of c # _ \<Rightarrow> c = NL | [] \<Rightarrow> False)"

definition bulletAhead :: "jschar list \<Rightarrow> bool" where
  "bulletAhead r =
     (case r of c # d # _ \<Rightarrow> (c = 0x2D \<or> c = 0x2A) \<and> isWhiteSpace d | _ \<Rightarrow> False)"

definition orderedAhead :: "jschar list \<Rightarrow> bool" where
  "orderedAhead r = (takeWhile isDigit r \<noteq> [] \<and>
     (case dropWhile isDigit r of c # d # _ \<Rightarrow> c = 0x2E \<and> isWhiteSpace d | _ \<Rightarrow> False))"

definition fenceAhead :: "jschar list \<Rightarrow> bool" where
  "fenceAhead r = (take 3 r = [0x60, 0x60, 0x60])"

definition keptBefore :: "jschar list \<Rightarrow> bool" where
  "keptBefore r = (newlineAhead r \<or> bulletAhead r \<or> orderedAhead r \<or> fenceAhead r)"

text \<open>
  \<^verbatim>\<open>unified.replace(/([^\n])\n(?!...)/g, "$1 ")\<close>: a match is a code unit other than
  a newline, then a newline, with no lookahead succeeding after it; the match is replaced
  by the code unit and a space and the scan resumes after the newline.  Where no match
  starts, the code unit is copied and the scan moves one unit on.
\<close>

fun collapseNewlines :: "jschar list \<Rightarrow> jschar list" where
  "collapseNewlines (c # n # rest) =
     (if c \<noteq> NL \<and> n = NL \<and> \<not> keptBefore rest
      then c # SP # collapseNewlines rest
      else c # collapseNewlines (n # rest))"
| "collapseNewlines cs = cs"

definition normalizeStreamingText :: "jschar list \<Rightarrow> jschar list" where
  "normalizeStreamingText text =
     (if text = [] then [] else collapseNewlines (unifyNewlines text))"

text \<open>
  The same replacement read position by position, for the proofs: \<open>p\<close> is the code unit
  before the list, if any.
\<close>

fun collapseAt :: "jschar option \<Rightarrow> jschar list \<Rightarrow> jschar list" where
  "collapseAt p [] = []"
| "collapseAt p (c # rest) =
     (if c = NL \<and> p \<noteq> None \<and> p \<noteq> Some NL \<and> \<not> keptBefore rest then SP else c)
       # collapseAt (Some c) rest"

section \<open>The session input stream (session manager)\<close>

text \<open>
  \<^verbatim>\<open>createInputStream\<close> returns three closures over \<^verbatim>\<open>queue\<close>, \<^verbatim>\<open>resolveNext\<close> and
  \<^verbatim>\<open>closed\<close>.  The closures become functions on a record of the three variables.
  What the iterator hands to its consumer is recorded in two more fields: \<open>calls\<close> counts
  the calls of \<^verbatim>\<open>next()\<close>, and \<open>answers\<close> lists, in the order in which the promises
  are resolved, the number of the call and the result it receives.  A call of \<^verbatim>\<open>next()\<close>
  that finds the queue empty and the stream open stores its resolver in \<^verbatim>\<open>resolveNext\<close>
  (here: the number of the call) and is answered later by \<^verbatim>\<open>push\<close> or \<^verbatim>\<open>close\<close>.
\<close>

datatype 'm IteratorResult = Value 'm | Done

record 'm InputStream =
  queue :: "'m list"
  resolveNext :: "nat option"
  closed :: bool
  calls :: nat
  answers :: "(nat \<times> 'm IteratorResult) list"

definition createInputStream :: "'m InputStream" where
  "createInputStream =
     \<lparr>queue = [], resolveNext = None, closed = False, calls = 0, answers = []\<rparr>"

definition push :: "'m \<Rightarrow> 'm InputStream \<Rightarrow> 'm InputStream" where
  "push message s =
     (if closed s then s
      else case resolveNext s of
        Some k \<Rightarrow> s\<lparr>answers := answers s @ [(k, Value message)], resolveNext := None\<rparr>
      | None \<Rightarrow> s\<lparr>queue := queue s @ [message]\<rparr>)"

definition close :: "'m InputStream \<Rightarrow> 'm InputStream" where
  "close s =
     (case resolveNext s of
        Some k \<Rightarrow> s\<lparr>closed := True, answers := answers s @ [(k, Done)], resolveNext := None\<rparr>
      | None \<Rightarrow> s\<lparr>closed := True\<rparr>)"






section \<open>The permission handler\<close>

text \<open>
  Every call of the \<^verbatim>\<open>canUseTool\<close> callback makes one promise, one timer and one abort
  listener.  The call is numbered (\<open>requests\<close> counts them) and the number names all
  three.  The closures of the source become data: a timer holds the tool-use id its
  callback captured, a listener likewise, and a pending entry holds the number of the
  promise that its \<^verbatim>\<open>resolve\<close> and \<^verbatim>\<open>reject\<close> settle.  Every call of a promise's
  \<^verbatim>\<open>resolve\<close> or \<^verbatim>\<open>reject\<close> is recorded in \<open>settled\<close>, in order.  The table
  \<^verbatim>\<open>pending\<close> is a JavaScript \<^verbatim>\<open>Map\<close>: an association list in insertion order.
\<close>

datatype PermissionResult =
    Allow "string list option" string
  | Deny string string

datatype settlement = Resolved PermissionResult | Rejected string

record PendingPermission =
  toolUseId :: string
  sessionId :: string
  workspaceId :: string
  resolver :: nat
  timeoutId :: nat

record PermissionRequest =
  reqSessionId :: string
  reqWorkspaceId :: string
  reqToolName :: string
  reqToolUseId :: string

record PermissionHandler =
  pending :: "(string \<times> PendingPermission) list"
  timeoutMs :: nat
  timers :: "(nat \<times> nat \<times> string) list"
  listeners :: "(nat \<times> string) list"
  settled :: "(nat \<times> settlement) list"
  requests :: nat
  emitted :: "PermissionRequest list"

definition DEFAULT_PERMISSION_TIMEOUT_MS :: nat where
  "DEFAULT_PERMISSION_TIMEOUT_MS = 5 * 60 * 1000"

definition newPermissionHandler :: "nat \<Rightarrow> PermissionHandler" where
  "newPermissionHandler ms =
     \<lparr>pending = [], timeoutMs = ms, timers = [], listeners = [], settled = [],
      requests = 0, emitted = []\<rparr>"

text \<open>\<^verbatim>\<open>clearTimeout\<close> and \<^verbatim>\<open>signal.removeEventListener\<close>.\<close>

definition clearTimeout :: "nat \<Rightarrow> PermissionHandler \<Rightarrow> PermissionHandler" where
  "clearTimeout i s = s\<lparr>timers := filter (\<lambda>p. fst p \<noteq> i) (timers s)\<rparr>"

definition removeListener :: "nat \<Rightarrow> PermissionHandler \<Rightarrow> PermissionHandler" where
  "removeListener i s = s\<lparr>listeners := filter (\<lambda>p. fst p \<noteq> i) (listeners s)\<rparr>"

definition settle :: "nat \<Rightarrow> settlement \<Rightarrow> PermissionHandler \<Rightarrow> PermissionHandler" where
  "settle i r s = s\<lparr>settled := settled s @ [(i, r)]\<rparr>"

text \<open>
  The callback returned by \<^verbatim>\<open>createCallback(getSessionId, workspaceId)\<close>, called by the
  vendor for a tool use: \<open>sid\<close> is what \<^verbatim>\<open>getSessionId()\<close> returns at the call.  The
  event \<^verbatim>\<open>permission/request\<close> is emitted, the timer armed, the abort listener added and
  the entry stored.  The other fields of the request (input, suggestions, blocked path,
  decision reason, agent id) are copied into the event and play no part afterwards.
\<close>

definition canUseTool ::
  "string \<Rightarrow> string \<Rightarrow> string \<Rightarrow> string \<Rightarrow> PermissionHandler \<Rightarrow> PermissionHandler" where
  "canUseTool sid ws toolName toolUseID s =
     s\<lparr>emitted := emitted s @
          [\<lparr>reqSessionId = sid, reqWorkspaceId = ws, reqToolName = toolName,
            reqToolUseId = toolUseID\<rparr>],
       timers := timers s @ [(requests s, timeoutMs s, toolUseID)],
       listeners := listeners s @ [(requests s, toolUseID)],
       pending := AList.update toolUseID
          \<lparr>toolUseId = toolUseID, sessionId = sid, workspaceId = ws,
           resolver = requests s, timeoutId = requests s\<rparr> (pending s),
       requests := Suc (requests s)\<rparr>"

text \<open>
  The timer's callback.  A timer fires once.  It looks the table up under the id it
  captured and, when an entry is there, deletes it and resolves its own promise.
\<close>

definition timerFire :: "nat \<Rightarrow> PermissionHandler \<Rightarrow> PermissionHandler" where
  "timerFire i s =
     (case map_of (timers s) i of
        None \<Rightarrow> s
      | Some (ms, toolUseID) \<Rightarrow>
          (case map_of (pending s) toolUseID of
             None \<Rightarrow> clearTimeout i s
           | Some p \<Rightarrow>
               settle i (Resolved (Deny ''Permission request timed out'' toolUseID))
                 ((clearTimeout i s)\<lparr>pending := AList.delete toolUseID (pending s)\<rparr>)))"

text \<open>The abort handler, registered with \<^verbatim>\<open>{ once: true }\<close>.\<close>

definition abort :: "nat \<Rightarrow> PermissionHandler \<Rightarrow> PermissionHandler" where
  "abort i s =
     (case map_of (listeners s) i of
        None \<Rightarrow> s
      | Some toolUseID \<Rightarrow>
          (case map_of (pending s) toolUseID of
             None \<Rightarrow> removeListener i s
           | Some p \<Rightarrow>
               settle i (Rejected ''Permission request aborted'')
                 ((clearTimeout (timeoutId p) (removeListener i s))
                    \<lparr>pending := AList.delete toolUseID (pending s)\<rparr>)))"

text \<open>
  \<^verbatim>\<open>respond(toolUseId, decision, message, updatedPermissions)\<close>.  The decision arrives
  from a parsed command, so it is a string; anything but \<^verbatim>\<open>"allow"\<close> takes the other
  branch.  \<^verbatim>\<open>pending.resolve\<close> removes the abort listener and resolves the promise.
\<close>

definition respond ::
  "string \<Rightarrow> string \<Rightarrow> string option \<Rightarrow> string list option \<Rightarrow> PermissionHandler
     \<Rightarrow> bool \<times> PermissionHandler" where
  "respond toolUseId' decision message updatedPermissions s =
     (case map_of (pending s) toolUseId' of
        None \<Rightarrow> (False, s)
      | Some p \<Rightarrow>
          (True,
           settle (resolver p)
             (Resolved
               (if decision = ''allow'' then Allow updatedPermissions toolUseId'
                else Deny (case message of None \<Rightarrow> ''Permission denied by user'' | Some m \<Rightarrow> m)
                       toolUseId'))
             (removeListener (resolver p)
               ((clearTimeout (timeoutId p) s)
                  \<lparr>pending := AList.delete toolUseId' (pending s)\<rparr>))))"

definition hasPending :: "string \<Rightarrow> PermissionHandler \<Rightarrow> bool" where
  "hasPending t s = (map_of (pending s) t \<noteq> None)"

text \<open>
  One turn of the loops of \<^verbatim>\<open>cancelForSession\<close> and \<^verbatim>\<open>cancelAll\<close>: clear the timer,
  reject (which removes the listener), delete the entry.
\<close>

definition cancelEntry ::
  "string \<Rightarrow> PermissionHandler \<Rightarrow> string \<times> PendingPermission \<Rightarrow> PermissionHandler" where
  "cancelEntry msg s kp =
     (settle (resolver (snd kp)) (Rejected msg)
        (removeListener (resolver (snd kp)) (clearTimeout (timeoutId (snd kp)) s)))
       \<lparr>pending := AList.delete (fst kp) (pending s)\<rparr>"

definition cancelForSession :: "string \<Rightarrow> PermissionHandler \<Rightarrow> PermissionHandler" where
  "cancelForSession sid s =
     foldl (\<lambda>s kp. if PendingPermission.sessionId (snd kp) = sid then cancelEntry ''Session closed'' s kp else s)
       s (pending s)"

definition cancelAll :: "PermissionHandler \<Rightarrow> PermissionHandler" where
  "cancelAll s = foldl (cancelEntry ''Bridge shutting down'') s (pending s)"

definition pendingCount :: "PermissionHandler \<Rightarrow> nat" where
  "pendingCount s = length (pending s)"

text \<open>
  \<^verbatim>\<open>handlePermissionRespond\<close> of the command loop: the parameters carry a session id,
  which the handler does not read.
\<close>

record PermissionRespondParams =
  prSessionId :: string
  prToolUseId :: string
  prDecision :: string
  prMessage :: "string option"
  prUpdatedPermissions :: "string list option"

definition handlePermissionRespond ::
  "PermissionRespondParams \<Rightarrow> PermissionHandler \<Rightarrow> bool \<times> PermissionHandler" where
  "handlePermissionRespond params s =
     respond (prToolUseId params) (prDecision params) (prMessage params)
       (prUpdatedPermissions params) s"

text \<open>What can happen to the handler, and a history of it.\<close>

datatype perm_event =
    CanUseTool string string string string
  | TimerFire nat
  | Abort nat
  | Respond string string "string option" "string list option"
  | CancelForSession string
  | CancelAll

fun perm_step :: "PermissionHandler \<Rightarrow> perm_event \<Rightarrow> PermissionHandler" where
  "perm_step s (CanUseTool sid ws toolName t) = canUseTool sid ws toolName t s"
| "perm_step s (TimerFire i) = timerFire i s"
| "perm_step s (Abort i) = abort i s"
| "perm_step s (Respond t d m u) = snd (respond t d m u s)"
| "perm_step s (CancelForSession sid) = cancelForSession sid s"
| "perm_step s CancelAll = cancelAll s"

definition run_perm :: "perm_event list \<Rightarrow> PermissionHandler \<Rightarrow> PermissionHandler" where
  "run_perm evs s = foldl perm_step s evs"

definition settlements :: "nat \<Rightarrow> PermissionHandler \<Rightarrow> settlement list" where
  "settlements i s = map snd (filter (\<lambda>p. fst p = i) (settled s))"

fun requests_tool :: "string \<Rightarrow> perm_event \<Rightarrow> bool" where
  "requests_tool t (CanUseTool sid ws toolName t') = (t' = t)"
| "requests_tool t _ = False"

text \<open>
  For the proofs: the promises that pending entries can still settle, and what holds of
  the handler in every state it can reach.  Numbers of timers, listeners, settlements and
  entries are below the counter; an entry keeps the timer of its own request; no pending
  entry is settled; entries of one request lie under one key; and the tool-use id that a
  timer or a listener captured is the key of the entry of its request.
\<close>

definition resolvers :: "PermissionHandler \<Rightarrow> nat set" where
  "resolvers s = (\<lambda>kp. resolver (snd kp)) ` set (pending s)"

definition perm_inv :: "PermissionHandler \<Rightarrow> bool" where
  "perm_inv s =
     ((\<forall>p \<in> set (timers s). fst p < requests s)
      \<and> (\<forall>p \<in> set (listeners s). fst p < requests s)
      \<and> (\<forall>p \<in> set (settled s). fst p < requests s)
      \<and> (\<forall>kp \<in> set (pending s). resolver (snd kp) < requests s
            \<and> timeoutId (snd kp) = resolver (snd kp)
            \<and> resolver (snd kp) \<notin> fst ` set (settled s))
      \<and> (\<forall>kp \<in> set (pending s). \<forall>kp' \<in> set (pending s).
            resolver (snd kp) = resolver (snd kp') \<longrightarrow> fst kp = fst kp')
      \<and> (\<forall>p \<in> set (timers s). \<forall>q \<in> set (listeners s).
            fst p = fst q \<longrightarrow> snd (snd p) = snd q)
      \<and> (\<forall>kp \<in> set (pending s). \<forall>p \<in> set (timers s).
            resolver (snd kp) = fst p \<longrightarrow> fst kp = snd (snd p))
      \<and> (\<forall>kp \<in> set (pending s). \<forall>q \<in> set (listeners s).
            resolver (snd kp) = fst q \<longrightarrow> fst kp = snd q))"

definition cancel_inv :: "(string \<times> PendingPermission) list \<Rightarrow> PermissionHandler \<Rightarrow> bool" where
  "cancel_inv es s =
     (perm_inv s \<and> (\<forall>kp \<in> set es. resolver (snd kp) < requests s
        \<and> (kp \<in> set (pending s) \<or> resolver (snd kp) \<notin> resolvers s)))"

text \<open>
  More for the proofs.  \<open>shrinks s s' xs\<close>: from \<open>s\<close> to \<open>s'\<close> nothing was added but
  the settlements \<open>xs\<close>.  \<open>can_settle s i\<close>: promise \<open>i\<close> has a timer, a pending entry, or
  a listener whose tool-use id is pending.  \<open>dead n s\<close>: nothing is left of request
  \<open>n\<close>.  \<open>timed_out t n s\<close>: of request \<open>n\<close> for tool-use id \<open>t\<close> at most the abort
  listener is left and \<open>t\<close> is not pending.  \<open>armed s\<close>: every pending entry has its
  timer, set to the configured delay.
\<close>

definition shrinks ::
  "PermissionHandler \<Rightarrow> PermissionHandler \<Rightarrow> (nat \<times> settlement) list \<Rightarrow> bool" where
  "shrinks s s' xs =
     (set (timers s') \<subseteq> set (timers s) \<and> set (listeners s') \<subseteq> set (listeners s)
      \<and> set (pending s') \<subseteq> set (pending s) \<and> requests s' = requests s
      \<and> settled s' = settled s @ xs)"

definition can_settle :: "PermissionHandler \<Rightarrow> nat \<Rightarrow> bool" where
  "can_settle s i =
     (i \<in> fst ` set (timers s) \<or> i \<in> resolvers s
      \<or> (\<exists>q \<in> set (listeners s). fst q = i \<and> snd q \<in> fst ` set (pending s)))"

definition dead :: "nat \<Rightarrow> PermissionHandler \<Rightarrow> bool" where
  "dead n s =
     (n \<notin> fst ` set (timers s) \<and> n \<notin> fst ` set (listeners s) \<and> n \<notin> resolvers s
      \<and> n < requests s)"

definition timed_out :: "string \<Rightarrow> nat \<Rightarrow> PermissionHandler \<Rightarrow> bool" where
  "timed_out t n s =
     (n \<notin> fst ` set (timers s) \<and> n \<notin> resolvers s
      \<and> (\<forall>q \<in> set (listeners s). fst q = n \<longrightarrow> snd q = t)
      \<and> t \<notin> fst ` set (pending s) \<and> n < requests s)"

definition armed :: "PermissionHandler \<Rightarrow> bool" where
  "armed s =
     (distinct (map fst (timers s))
      \<and> (\<forall>kp \<in> set (pending s). (resolver (snd kp), timeoutMs s, fst kp) \<in> set (timers s)))"

section \<open>The session manager\<close>

text \<open>
  A \<^verbatim>\<open>SessionState\<close> is a mutable object shared by the table \<^verbatim>\<open>sessions\<close>, by the
  background loop \<^verbatim>\<open>processMessages\<close> of its session and by the permission callback.
  The objects live in a store (\<open>objects\<close>; a reference is an index) and the table maps a
  session id to a reference.  The two \<^verbatim>\<open>Map\<close>s are looked up, set and deleted by key,
  so they are partial functions.  What \<^verbatim>\<open>emit\<close> writes to standard output is collected
  in \<open>events\<close>; time stamps are left out, and what the bridge only passes on (the fields
  of the vendor's messages, the options of a session) is an opaque string.  The field
  \<open>input\<close> is the stream that \<^verbatim>\<open>pushMessage\<close> and \<^verbatim>\<open>closeInput\<close> close over, and
  \<open>callbackSessionId\<close> is the id that the permission callback was bound to, if it was
  bound to an id and not to the object.
\<close>

datatype Status = Starting | Active | Closing | Closed

datatype MessageContent =
    TextContent string
  | Blocks string "(string \<times> string) list"

datatype SDKUserMessage = SDKUserMessage MessageContent "string option" string

record SessionState =
  sessionId :: string
  workspaceId :: string
  cwd :: string
  query :: bool
  input :: "SDKUserMessage InputStream"
  createdAt :: nat
  status :: Status
  callbackSessionId :: "string option"

datatype Payload =
    Opaque string
  | ClosedReason string
  | ErrorPayload string string bool

datatype BridgeEvent = BridgeEvent string string string Payload

record SessionManager =
  objects :: "SessionState list"
  sessions :: "string \<rightharpoonup> nat"
  workspaceToSession :: "string \<rightharpoonup> string"
  events :: "BridgeEvent list"

definition newSessionManager :: SessionManager where
  "newSessionManager =
     \<lparr>objects = [], sessions = Map.empty, workspaceToSession = Map.empty, events = []\<rparr>"

definition emit ::
  "string \<Rightarrow> string \<Rightarrow> string \<Rightarrow> Payload \<Rightarrow> SessionManager \<Rightarrow> SessionManager" where
  "emit ty sid ws p m = m\<lparr>events := events m @ [BridgeEvent ty sid ws p]\<rparr>"

text \<open>The decimal numeral of a number, as a template literal prints \<^verbatim>\<open>Date.now()\<close>.\<close>

function decimal :: "nat \<Rightarrow> string" where
  "decimal n =
     (if n < 10 then [''0123456789'' ! n]
      else decimal (n div 10) @ [''0123456789'' ! (n mod 10)])"
  by pat_completeness auto
termination
  by (relation "measure id") auto

declare decimal.simps [simp del]

definition statusName :: "Status \<Rightarrow> string" where
  "statusName st =
     (case st of Starting \<Rightarrow> ''starting'' | Active \<Rightarrow> ''active''
      | Closing \<Rightarrow> ''closing'' | Closed \<Rightarrow> ''closed'')"

text \<open>
  The check at the head of \<^verbatim>\<open>startSession\<close>: the session id that the index holds for
  the workspace, when it is a non-empty string, the table has an entry for it and the
  status of that entry is \<^verbatim>\<open>"active"\<close>.
\<close>

definition activeSessionOf :: "SessionManager \<Rightarrow> string \<Rightarrow> string option" where
  "activeSessionOf m ws =
     (case workspaceToSession m ws of
        None \<Rightarrow> None
      | Some existingSessionId \<Rightarrow>
          if existingSessionId = [] then None
          else (case sessions m existingSessionId of
                  None \<Rightarrow> None
                | Some r \<Rightarrow>
                    if status (objects m ! r) = Active then Some existingSessionId else None))"

text \<open>
  \<^verbatim>\<open>startSession(workspaceId, cwd, options)\<close>.  \<open>now\<close> and \<open>created\<close> are the two
  readings of \<^verbatim>\<open>Date.now()\<close>; \<open>queryError\<close> is the error that the vendor's
  \<^verbatim>\<open>query()\<close> throws, if it throws.  The options are handed to the vendor and not read.
  The result is the error thrown or the pending id returned.  The loop started in the
  background works on the new object, whose reference is the length of the store before
  the call.
\<close>

definition startSession ::
  "nat \<Rightarrow> nat \<Rightarrow> string option \<Rightarrow> string \<Rightarrow> string \<Rightarrow> SessionManager
     \<Rightarrow> (string + string) \<times> SessionManager" where
  "startSession now created queryError ws dir m =
     (case activeSessionOf m ws of
        Some existingSessionId \<Rightarrow>
          (Inl (''Workspace '' @ ws @ '' already has an active session: '' @ existingSessionId), m)
      | None \<Rightarrow>
          (let tempSessionId = ''pending-'' @ decimal now;
               sessionState = \<lparr>sessionId = tempSessionId, workspaceId = ws, cwd = dir,
                  query = False, input = createInputStream, createdAt = created,
                  status = Starting, callbackSessionId = None\<rparr>;
               r = length (objects m);
               m1 = m\<lparr>objects := objects m @ [sessionState],
                      sessions := (sessions m)(tempSessionId \<mapsto> r)\<rparr>
           in case queryError of
                Some e \<Rightarrow> (Inl e, m1\<lparr>sessions := (sessions m1)(tempSessionId := None)\<rparr>)
              | None \<Rightarrow>
                  (Inr tempSessionId,
                   m1\<lparr>objects := (objects m1)[r := sessionState\<lparr>query := True\<rparr>]\<rparr>)))"

text \<open>
  \<^verbatim>\<open>resumeSession(workspaceId, sessionId, cwd, options)\<close>.  The permission callback of a
  resumed session is bound to the id given, not to the object.
\<close>

definition resumeSession ::
  "nat \<Rightarrow> string option \<Rightarrow> string \<Rightarrow> string \<Rightarrow> string \<Rightarrow> SessionManager
     \<Rightarrow> (string + unit) \<times> SessionManager" where
  "resumeSession created queryError ws sid dir m =
     (if (case sessions m sid of None \<Rightarrow> False | Some r \<Rightarrow> status (objects m ! r) = Active)
      then (Inl (''Session '' @ sid @ '' is already active''), m)
      else
        (let sessionState = \<lparr>sessionId = sid, workspaceId = ws, cwd = dir,
                query = False, input = createInputStream, createdAt = created,
                status = Starting, callbackSessionId = Some sid\<rparr>;
             r = length (objects m);
             m1 = m\<lparr>objects := objects m @ [sessionState],
                    sessions := (sessions m)(sid \<mapsto> r),
                    workspaceToSession := (workspaceToSession m)(ws \<mapsto> sid)\<rparr>
         in case queryError of
              Some e \<Rightarrow>
                (Inl e, m1\<lparr>sessions := (sessions m1)(sid := None),
                            workspaceToSession := (workspaceToSession m1)(ws := None)\<rparr>)
            | None \<Rightarrow>
                (Inr (), m1\<lparr>objects := (objects m1)[r := sessionState\<lparr>query := True\<rparr>]\<rparr>)))"

text \<open>
  \<^verbatim>\<open>sendMessage\<close>.  \<open>extname\<close> is \<^verbatim>\<open>path.extname(p).toLowerCase()\<close> and \<open>readFile\<close>
  the base64 text of the file, or the error that reading it throws.  A message with no
  image goes out as plain text, otherwise as the text and the image blocks.  Every object
  that the manager creates has its \<^verbatim>\<open>pushMessage\<close>, so the error for a missing one is
  never thrown and has no branch here.
\<close>

definition mediaTypeOf :: "string \<Rightarrow> string" where
  "mediaTypeOf ext =
     (if ext = ''.jpg'' \<or> ext = ''.jpeg'' then ''image/jpeg''
      else if ext = ''.gif'' then ''image/gif''
      else if ext = ''.webp'' then ''image/webp''
      else if ext = ''.bmp'' then ''image/bmp''
      else if ext = ''.tif'' \<or> ext = ''.tiff'' then ''image/tiff''
      else ''image/png'')"

fun readImages ::
  "(string \<Rightarrow> string) \<Rightarrow> (string \<Rightarrow> string + string) \<Rightarrow> string list
     \<Rightarrow> string + (string \<times> string) list" where
  "readImages extname readFile [] = Inr []"
| "readImages extname readFile (imagePath # rest) =
     (case readFile imagePath of
        Inl e \<Rightarrow> Inl e
      | Inr data \<Rightarrow>
          (case readImages extname readFile rest of
             Inl e \<Rightarrow> Inl e
           | Inr blocks \<Rightarrow> Inr ((mediaTypeOf (extname imagePath), data) # blocks)))"

definition sendMessage ::
  "(string \<Rightarrow> string) \<Rightarrow> (string \<Rightarrow> string + string) \<Rightarrow> string \<Rightarrow> string
     \<Rightarrow> string list option \<Rightarrow> string option \<Rightarrow> SessionManager
     \<Rightarrow> (string + unit) \<times> SessionManager" where
  "sendMessage extname readFile sid message images messageId m =
     (case sessions m sid of
        None \<Rightarrow> (Inl (''Session not found: '' @ sid), m)
      | Some r \<Rightarrow>
          (let session = objects m ! r in
           if status session \<noteq> Active \<and> status session \<noteq> Starting
           then (Inl (''Session '' @ sid @ '' is not active (status: ''
                        @ statusName (status session) @ '')''), m)
           else
             (case readImages extname readFile (case images of None \<Rightarrow> [] | Some ps \<Rightarrow> ps) of
                Inl e \<Rightarrow> (Inl e, m)
              | Inr blocks \<Rightarrow>
                  (let userMessage = SDKUserMessage
                         (if blocks = [] then TextContent message else Blocks message blocks)
                         messageId (sessionId session)
                   in (Inr (),
                       m\<lparr>objects := (objects m)
                            [r := session\<lparr>input := push userMessage (input session)\<rparr>]\<rparr>)))))"

text \<open>The methods of the vendor's query handle that the bridge calls.\<close>

datatype VendorCall =
    Interrupt | SupportedModels | SupportedCommands | McpServerStatus
  | RewindFilesCall string "bool option" | SetMcpServersCall string | SetModelCall string

text \<open>The test \<^verbatim>\<open>!session?.query\<close> and its error.\<close>

definition withQuery :: "string \<Rightarrow> string \<Rightarrow> SessionManager \<Rightarrow> string + nat" where
  "withQuery what sid m =
     (case sessions m sid of
        None \<Rightarrow> Inl (what @ sid)
      | Some r \<Rightarrow> if query (objects m ! r) then Inr r else Inl (what @ sid))"

definition interrupt ::
  "(VendorCall \<Rightarrow> string + string) \<Rightarrow> string \<Rightarrow> SessionManager \<Rightarrow> string + unit" where
  "interrupt vendor sid m =
     (case sessions m sid of
        None \<Rightarrow> Inl (''Session not found: '' @ sid)
      | Some r \<Rightarrow>
          if \<not> query (objects m ! r) then Inl (''Session '' @ sid @ '' has no active query'')
          else (case vendor Interrupt of Inl e \<Rightarrow> Inl e | Inr x \<Rightarrow> Inr ()))"

definition listModels ::
  "(VendorCall \<Rightarrow> string + string) \<Rightarrow> string \<Rightarrow> SessionManager \<Rightarrow> string + string" where
  "listModels vendor sid m =
     (case withQuery ''Session not found or inactive: '' sid m of
        Inl e \<Rightarrow> Inl e | Inr r \<Rightarrow> vendor SupportedModels)"

definition listCommands ::
  "(VendorCall \<Rightarrow> string + string) \<Rightarrow> string option \<Rightarrow> SessionManager \<Rightarrow> string + string" where
  "listCommands vendor sidOpt m =
     (case sidOpt of
        None \<Rightarrow> Inr ''[]''
      | Some sid \<Rightarrow>
          if sid = [] then Inr ''[]''
          else (case withQuery [] sid m of
                  Inl e \<Rightarrow> Inr ''[]''
                | Inr r \<Rightarrow> vendor SupportedCommands))"

definition getMcpStatus ::
  "(VendorCall \<Rightarrow> string + string) \<Rightarrow> string \<Rightarrow> SessionManager \<Rightarrow> string + string" where
  "getMcpStatus vendor sid m =
     (case withQuery ''Session not found or inactive: '' sid m of
        Inl e \<Rightarrow> Inl e | Inr r \<Rightarrow> vendor McpServerStatus)"

text \<open>
  \<^verbatim>\<open>rewindFiles\<close> catches what the vendor throws and returns it in its result: of the
  inner sum, \<open>Inl\<close> is the result with \<^verbatim>\<open>canRewind: false\<close> and the error, \<open>Inr\<close> the
  vendor's result.
\<close>

definition rewindFiles ::
  "(VendorCall \<Rightarrow> string + string) \<Rightarrow> string \<Rightarrow> string \<Rightarrow> bool option \<Rightarrow> SessionManager
     \<Rightarrow> string + (string + string)" where
  "rewindFiles vendor sid userMessageId dryRun m =
     (case withQuery ''Session not found or inactive: '' sid m of
        Inl e \<Rightarrow> Inl e
      | Inr r \<Rightarrow> Inr (vendor (RewindFilesCall userMessageId dryRun)))"

definition setMcpServers ::
  "(VendorCall \<Rightarrow> string + string) \<Rightarrow> string \<Rightarrow> string \<Rightarrow> SessionManager \<Rightarrow> string + string" where
  "setMcpServers vendor sid servers m =
     (case withQuery ''Session not found or inactive: '' sid m of
        Inl e \<Rightarrow> Inl e | Inr r \<Rightarrow> vendor (SetMcpServersCall servers))"

definition getSession :: "string \<Rightarrow> SessionManager \<Rightarrow> SessionState option" where
  "getSession sid m = (case sessions m sid of None \<Rightarrow> None | Some r \<Rightarrow> Some (objects m ! r))"

definition getSessionForWorkspace :: "string \<Rightarrow> SessionManager \<Rightarrow> string option" where
  "getSessionForWorkspace ws m = workspaceToSession m ws"

definition isSessionActive :: "string \<Rightarrow> SessionManager \<Rightarrow> bool" where
  "isSessionActive sid m =
     (case sessions m sid of None \<Rightarrow> False | Some r \<Rightarrow> status (objects m ! r) = Active)"

text \<open>\<^verbatim>\<open>closeSession\<close> works on the manager and on the permission handler.\<close>

definition closeSession ::
  "string \<Rightarrow> SessionManager \<times> PermissionHandler \<Rightarrow> SessionManager \<times> PermissionHandler" where
  "closeSession sid mp =
     (case sessions (fst mp) sid of
        None \<Rightarrow> mp
      | Some r \<Rightarrow>
          (let m = fst mp;
               session = objects m ! r;
               session' = session\<lparr>status := Closing, input := close (input session)\<rparr>;
               m1 = m\<lparr>objects := (objects m)[r := session'],
                      sessions := (sessions m)(sid := None)\<rparr>;
               m2 = (if workspaceToSession m1 (workspaceId session) = Some sid
                     then m1\<lparr>workspaceToSession :=
                             (workspaceToSession m1)(workspaceId session := None)\<rparr>
                     else m1)
           in (emit ''session/closed'' sid (workspaceId session) (ClosedReason ''user'') m2,
               cancelForSession sid (snd mp))))"

text \<open>The messages of the vendor's query, by their discriminants.\<close>

datatype SDKMessageKind =
    SystemInit string
  | SystemOther
  | StreamEvent string
  | Assistant string
  | ToolProgress string
  | Result string
  | User
  | AuthStatus "string option"
  | OtherType string

datatype SDKMessage = SDKMessage "string option" SDKMessageKind

text \<open>
  \<^verbatim>\<open>handleMessage(msg, sessionState, workspaceId)\<close>, for the object at reference \<open>r\<close>.
  First the id under which the events of this message go out (\<^verbatim>\<open>msg.session_id\<close>, or
  the id of the object when the message has none); then the promotion of a pending id,
  for which \<^verbatim>\<open>msg.session_id\<close> must be a non-empty string; then the switch.
\<close>

definition promote :: "nat \<Rightarrow> string \<Rightarrow> string \<Rightarrow> SessionManager \<Rightarrow> SessionManager" where
  "promote r ws newId m =
     (let oldId = sessionId (objects m ! r)
      in m\<lparr>objects := (objects m)[r := (objects m ! r)\<lparr>sessionId := newId\<rparr>],
           sessions := ((sessions m)(oldId := None))(newId \<mapsto> r),
           workspaceToSession := (workspaceToSession m)(ws \<mapsto> newId)\<rparr>)"

definition promoted :: "nat \<Rightarrow> string \<Rightarrow> string option \<Rightarrow> SessionManager \<Rightarrow> SessionManager" where
  "promoted r ws session_id m =
     (case session_id of
        None \<Rightarrow> m
      | Some x \<Rightarrow>
          if startsWith (sessionId (objects m ! r)) ''pending-'' \<and> x \<noteq> []
          then promote r ws x m else m)"

definition handleMessage ::
  "nat \<Rightarrow> string \<Rightarrow> SDKMessage \<Rightarrow> SessionManager \<Rightarrow> SessionManager" where
  "handleMessage r ws msg m =
     (case msg of SDKMessage session_id kind \<Rightarrow>
        (let sid = (case session_id of None \<Rightarrow> sessionId (objects m ! r) | Some x \<Rightarrow> x);
             m1 = promoted r ws session_id m
         in case kind of
              SystemInit p \<Rightarrow>
                emit ''session/started'' sid ws (Opaque p)
                  (m1\<lparr>objects := (objects m1)[r := (objects m1 ! r)\<lparr>status := Active\<rparr>]\<rparr>)
            | SystemOther \<Rightarrow> m1
            | StreamEvent p \<Rightarrow> emit ''message/delta'' sid ws (Opaque p) m1
            | Assistant p \<Rightarrow> emit ''message/complete'' sid ws (Opaque p) m1
            | ToolProgress p \<Rightarrow> emit ''tool/progress'' sid ws (Opaque p) m1
            | Result p \<Rightarrow> emit ''result'' sid ws (Opaque p) m1
            | User \<Rightarrow> m1
            | AuthStatus err \<Rightarrow>
                (case err of
                   None \<Rightarrow> m1
                 | Some e \<Rightarrow>
                     if e = [] then m1
                     else emit ''error'' sid ws (ErrorPayload ''AUTH_ERROR'' e False) m1)
            | OtherType t \<Rightarrow> m1))"

text \<open>
  The end of \<^verbatim>\<open>processMessages\<close>: the \<^verbatim>\<open>catch\<close> when the loop threw (\<open>err\<close>), then the
  \<^verbatim>\<open>finally\<close>.
\<close>

definition processMessagesEnd ::
  "nat \<Rightarrow> string \<Rightarrow> string option \<Rightarrow> SessionManager \<Rightarrow> SessionManager" where
  "processMessagesEnd r ws err m =
     (let sid = sessionId (objects m ! r);
          m1 = (case err of
                  None \<Rightarrow> m
                | Some e \<Rightarrow>
                    emit ''error'' sid ws (ErrorPayload ''MESSAGE_PROCESSING_ERROR'' e False) m)
      in if sessions m1 sid = None then m1
         else
           (let m2 = m1\<lparr>objects := (objects m1)[r := (objects m1 ! r)\<lparr>status := Closed\<rparr>],
                       sessions := (sessions m1)(sid := None)\<rparr>;
                m3 = (if workspaceToSession m2 ws = Some sid
                      then m2\<lparr>workspaceToSession := (workspaceToSession m2)(ws := None)\<rparr>
                      else m2)
            in emit ''session/closed'' sid ws (ClosedReason ''completed'') m3))"

text \<open>
  The id that the permission callback of the object at \<open>r\<close> reports: the accessor of a
  started session reads the object, that of a resumed session returns the id it was
  resumed with.
\<close>

definition getSessionId :: "nat \<Rightarrow> SessionManager \<Rightarrow> string" where
  "getSessionId r m =
     (case callbackSessionId (objects m ! r) of
        None \<Rightarrow> sessionId (objects m ! r)
      | Some sid \<Rightarrow> sid)"

section \<open>The command loop of the bridge\<close>

text \<open>
  The state of the process: the flag and the client information of the command loop,
  the one session manager and the one permission handler.
\<close>

record Bridge =
  initialized :: bool
  clientInfo :: "string \<times> string"
  sessionManager :: SessionManager
  permissionHandler :: PermissionHandler

definition newBridge :: Bridge where
  "newBridge =
     \<lparr>initialized = False, clientInfo = (''unknown'', ''0.0.0''),
      sessionManager = newSessionManager,
      permissionHandler = newPermissionHandler DEFAULT_PERMISSION_TIMEOUT_MS\<rparr>"

text \<open>
  What a command reads from outside the process while it is handled: the clock, the
  vendor and the file system.
\<close>

record Env =
  now :: nat
  created :: nat
  queryError :: "string option"
  vendor :: "VendorCall \<Rightarrow> string + string"
  readFile :: "string \<Rightarrow> string + string"
  extname :: "string \<Rightarrow> string"

definition idle_env :: Env where
  "idle_env =
     \<lparr>now = 0, created = 0, queryError = None, vendor = (\<lambda>c. Inr []),
      readFile = (\<lambda>p. Inr []), extname = (\<lambda>p. [])\<rparr>"

text \<open>
  The commands by method, with the parameters of their types; a method that the switch
  does not know is \<open>UnknownMethod\<close>.  The options of \<^verbatim>\<open>session/start\<close> go to the vendor
  unread; \<^verbatim>\<open>message/send\<close> carries a workspace id that its handler does not read.
\<close>

datatype Command =
    Initialize string string
  | SessionStart string string string
  | SessionResume string string string
  | SessionClose string
  | MessageSend string string string "string list option" "string option"
  | MessageInterrupt string
  | PermissionRespond PermissionRespondParams
  | ModelList "string option"
  | ModelSet string string
  | CommandList "string option"
  | McpStatus string
  | SessionRewind string string "bool option"
  | McpSet string string
  | UnknownMethod string

datatype Response =
    Capabilities "string list"
  | SessionIdResult string
  | Success bool
  | Models string
  | Commands string
  | Servers string
  | RewindResult "string + string"
  | McpSetResult string

definition capabilities :: "string list" where
  "capabilities =
     [''session/start'', ''session/resume'', ''session/close'', ''session/rewind'',
      ''message/send'', ''message/interrupt'', ''permission/respond'', ''model/list'',
      ''model/set'', ''command/list'', ''mcp/status'', ''mcp/set'']"

text \<open>
  \<^verbatim>\<open>handleCommand\<close> with the handlers it dispatches to: the result is what the handler
  returns, or the message of the error it throws.
\<close>

definition handleInitialize :: "string \<Rightarrow> string \<Rightarrow> Bridge \<Rightarrow> (string + Response) \<times> Bridge" where
  "handleInitialize name version b =
     (if initialized b then (Inl ''Bridge already initialized'', b)
      else (Inr (Capabilities capabilities),
            b\<lparr>clientInfo := (name, version), initialized := True\<rparr>))"

definition handleSessionStart ::
  "Env \<Rightarrow> string \<Rightarrow> string \<Rightarrow> string \<Rightarrow> Bridge \<Rightarrow> (string + Response) \<times> Bridge" where
  "handleSessionStart env ws dir opts b =
     (if \<not> initialized b then (Inl ''Bridge not initialized'', b)
      else (case startSession (now env) (created env) (queryError env) ws dir (sessionManager b) of
              (Inl e, m) \<Rightarrow> (Inl e, b\<lparr>sessionManager := m\<rparr>)
            | (Inr sid, m) \<Rightarrow> (Inr (SessionIdResult sid), b\<lparr>sessionManager := m\<rparr>)))"

definition handleSessionResume ::
  "Env \<Rightarrow> string \<Rightarrow> string \<Rightarrow> string \<Rightarrow> Bridge \<Rightarrow> (string + Response) \<times> Bridge" where
  "handleSessionResume env ws sid dir b =
     (if \<not> initialized b then (Inl ''Bridge not initialized'', b)
      else (case resumeSession (created env) (queryError env) ws sid dir (sessionManager b) of
              (Inl e, m) \<Rightarrow> (Inl e, b\<lparr>sessionManager := m\<rparr>)
            | (Inr u, m) \<Rightarrow> (Inr (Success True), b\<lparr>sessionManager := m\<rparr>)))"

definition handleSessionClose :: "string \<Rightarrow> Bridge \<Rightarrow> (string + Response) \<times> Bridge" where
  "handleSessionClose sid b =
     (case closeSession sid (sessionManager b, permissionHandler b) of
        (m, p) \<Rightarrow> (Inr (Success True), b\<lparr>sessionManager := m, permissionHandler := p\<rparr>))"

definition handleMessageSend ::
  "Env \<Rightarrow> string \<Rightarrow> string \<Rightarrow> string list option \<Rightarrow> string option \<Rightarrow> Bridge
     \<Rightarrow> (string + Response) \<times> Bridge" where
  "handleMessageSend env sid message images messageId b =
     (if \<not> initialized b then (Inl ''Bridge not initialized'', b)
      else (case sendMessage (extname env) (readFile env) sid message images messageId
                   (sessionManager b) of
              (Inl e, m) \<Rightarrow> (Inl e, b\<lparr>sessionManager := m\<rparr>)
            | (Inr u, m) \<Rightarrow> (Inr (Success True), b\<lparr>sessionManager := m\<rparr>)))"

definition handleMessageInterrupt ::
  "Env \<Rightarrow> string \<Rightarrow> Bridge \<Rightarrow> (string + Response) \<times> Bridge" where
  "handleMessageInterrupt env sid b =
     (case interrupt (vendor env) sid (sessionManager b) of
        Inl e \<Rightarrow> (Inl e, b)
      | Inr u \<Rightarrow> (Inr (Success True), b))"

definition handleModelList ::
  "Env \<Rightarrow> string option \<Rightarrow> Bridge \<Rightarrow> (string + Response) \<times> Bridge" where
  "handleModelList env sidOpt b =
     (case sidOpt of
        None \<Rightarrow> (Inl ''sessionId required for model listing'', b)
      | Some sid \<Rightarrow>
          if sid = [] then (Inl ''sessionId required for model listing'', b)
          else (case listModels (vendor env) sid (sessionManager b) of
                  Inl e \<Rightarrow> (Inl e, b)
                | Inr models \<Rightarrow> (Inr (Models models), b)))"

definition handleCommandList ::
  "Env \<Rightarrow> string option \<Rightarrow> Bridge \<Rightarrow> (string + Response) \<times> Bridge" where
  "handleCommandList env sidOpt b =
     (case listCommands (vendor env) sidOpt (sessionManager b) of
        Inl e \<Rightarrow> (Inl e, b)
      | Inr commands \<Rightarrow> (Inr (Commands commands), b))"

definition handleMcpStatus ::
  "Env \<Rightarrow> string \<Rightarrow> Bridge \<Rightarrow> (string + Response) \<times> Bridge" where
  "handleMcpStatus env sid b =
     (case getMcpStatus (vendor env) sid (sessionManager b) of
        Inl e \<Rightarrow> (Inl e, b)
      | Inr servers \<Rightarrow> (Inr (Servers servers), b))"

definition handleModelSet ::
  "Env \<Rightarrow> string \<Rightarrow> string \<Rightarrow> Bridge \<Rightarrow> (string + Response) \<times> Bridge" where
  "handleModelSet env sid model b =
     (case withQuery ''Session not found or not active: '' sid (sessionManager b) of
        Inl e \<Rightarrow> (Inl e, b)
      | Inr r \<Rightarrow>
          (case vendor env (SetModelCall model) of
             Inl e \<Rightarrow> (Inl e, b)
           | Inr x \<Rightarrow> (Inr (Success True), b)))"

definition handleRewindFiles ::
  "Env \<Rightarrow> string \<Rightarrow> string \<Rightarrow> bool option \<Rightarrow> Bridge \<Rightarrow> (string + Response) \<times> Bridge" where
  "handleRewindFiles env sid userMessageId dryRun b =
     (case rewindFiles (vendor env) sid userMessageId dryRun (sessionManager b) of
        Inl e \<Rightarrow> (Inl e, b)
      | Inr res \<Rightarrow> (Inr (RewindResult res), b))"

definition handleSetMcpServers ::
  "Env \<Rightarrow> string \<Rightarrow> string \<Rightarrow> Bridge \<Rightarrow> (string + Response) \<times> Bridge" where
  "handleSetMcpServers env sid servers b =
     (case setMcpServers (vendor env) sid servers (sessionManager b) of
        Inl e \<Rightarrow> (Inl e, b)
      | Inr res \<Rightarrow> (Inr (McpSetResult res), b))"

fun handleCommand :: "Env \<Rightarrow> Command \<Rightarrow> Bridge \<Rightarrow> (string + Response) \<times> Bridge" where
  "handleCommand env (Initialize name version) b = handleInitialize name version b"
| "handleCommand env (SessionStart ws dir opts) b = handleSessionStart env ws dir opts b"
| "handleCommand env (SessionResume ws sid dir) b = handleSessionResume env ws sid dir b"
| "handleCommand env (SessionClose sid) b = handleSessionClose sid b"
| "handleCommand env (MessageSend sid ws message images messageId) b =
     handleMessageSend env sid message images messageId b"
| "handleCommand env (MessageInterrupt sid) b = handleMessageInterrupt env sid b"
| "handleCommand env (PermissionRespond params) b =
     (case handlePermissionRespond params (permissionHandler b) of
        (success, p) \<Rightarrow> (Inr (Success success), b\<lparr>permissionHandler := p\<rparr>))"
| "handleCommand env (ModelList sidOpt) b = handleModelList env sidOpt b"
| "handleCommand env (ModelSet sid model) b = handleModelSet env sid model b"
| "handleCommand env (CommandList sidOpt) b = handleCommandList env sidOpt b"
| "handleCommand env (McpStatus sid) b = handleMcpStatus env sid b"
| "handleCommand env (SessionRewind sid userMessageId dryRun) b =
     handleRewindFiles env sid userMessageId dryRun b"
| "handleCommand env (McpSet sid servers) b = handleSetMcpServers env sid servers b"
| "handleCommand env (UnknownMethod method) b = (Inl (''Unknown method: '' @ method), b)"

text \<open>
  The body of the main loop for one well-formed command: the response written carries
  the id of the command and either the result or the error.
\<close>

datatype ResponsePayload = ResultResponse nat Response | ErrorResponse nat string

definition serve :: "Env \<Rightarrow> nat \<Rightarrow> Command \<Rightarrow> Bridge \<Rightarrow> ResponsePayload \<times> Bridge" where
  "serve env cid cmd b =
     (case handleCommand env cmd b of
        (Inl e, b') \<Rightarrow> (ErrorResponse cid e, b')
      | (Inr res, b') \<Rightarrow> (ResultResponse cid res, b'))"

text \<open>
  Everything that can happen to the process: a command arrives; the vendor's query of
  the session object \<open>r\<close> yields a message, or ends (with the error it threw, if any);
  the vendor asks the permission callback of the session object \<open>r\<close> about a tool use; a
  timer fires; an abort signal is raised.  Each handler runs to its end before the next
  begins.  The loop and the callback of a session exist once its object does, and they
  were given the workspace id that the object holds.
\<close>

datatype BridgeInput =
    CommandLine Env nat Command
  | VendorMessage nat SDKMessage
  | LoopEnd nat "string option"
  | ToolUse nat string string
  | TimerFires nat
  | AbortSignal nat

fun bridge_step :: "Bridge \<Rightarrow> BridgeInput \<Rightarrow> Bridge" where
  "bridge_step b (CommandLine env cid cmd) = snd (serve env cid cmd b)"
| "bridge_step b (VendorMessage r msg) =
     (if r < length (objects (sessionManager b))
      then b\<lparr>sessionManager :=
               handleMessage r (workspaceId (objects (sessionManager b) ! r)) msg
                 (sessionManager b)\<rparr>
      else b)"
| "bridge_step b (LoopEnd r err) =
     (if r < length (objects (sessionManager b))
      then b\<lparr>sessionManager :=
               processMessagesEnd r (workspaceId (objects (sessionManager b) ! r)) err
                 (sessionManager b)\<rparr>
      else b)"
| "bridge_step b (ToolUse r toolName toolUseID) =
     (if r < length (objects (sessionManager b))
      then b\<lparr>permissionHandler :=
               canUseTool (getSessionId r (sessionManager b))
                 (workspaceId (objects (sessionManager b) ! r)) toolName toolUseID
                 (permissionHandler b)\<rparr>
      else b)"
| "bridge_step b (TimerFires i) = b\<lparr>permissionHandler := timerFire i (permissionHandler b)\<rparr>"
| "bridge_step b (AbortSignal i) = b\<lparr>permissionHandler := abort i (permissionHandler b)\<rparr>"

definition run_bridge :: "BridgeInput list \<Rightarrow> Bridge \<Rightarrow> Bridge" where
  "run_bridge ins b = foldl bridge_step b ins"

fun initializes :: "BridgeInput \<Rightarrow> bool" where
  "initializes (CommandLine env cid (Initialize name version)) = True"
| "initializes i = False"

section \<open>Invariants of the session table\<close>






section \<open>The thread state of the user interface\<close>


















section \<open>Verification: overlap merge\<close>

lemma startsWith_prefix: "startsWith s t \<longleftrightarrow> prefix t s"
  by (auto simp: startsWith_def prefix_def) (metis append_take_drop_id)

lemma endsWith_suffix: "endsWith s t \<longleftrightarrow> suffix t s"
proof
  assume "endsWith s t"
  then have "s = take (length s - length t) s @ t"
    by (metis append_take_drop_id endsWith_def)
  then show "suffix t s"
    by (metis suffixI)
next
  assume "suffix t s"
  then obtain u where "s = u @ t"
    by (auto simp: suffix_def)
  then show "endsWith s t"
    by (simp add: endsWith_def)
qed

lemma overlapLoop_greatest:
  assumes "m \<le> n"
    and "\<forall>k. m < k \<and> k \<le> n \<longrightarrow> \<not> endsWith e (take k d)"
    and "m = 0 \<or> endsWith e (take m d)"
  shows "overlapLoop e d n = e @ drop m d"
  using assms
proof (induction n)
  case 0
  then show ?case by simp
next
  case (Suc n)
  show ?case
  proof (cases "m = Suc n")
    case True
    with Suc.prems show ?thesis by simp
  next
    case False
    with Suc.prems have "m \<le> n" by simp
    moreover from Suc.prems False have "\<not> endsWith e (take (Suc n) d)" by simp
    moreover from Suc.prems have "\<forall>k. m < k \<and> k \<le> n \<longrightarrow> \<not> endsWith e (take k d)" by simp
    ultimately show ?thesis using Suc.IH Suc.prems(3) by simp
  qed
qed

lemma merge_same: "mergeStreamingText a a = a"
  by (simp add: mergeStreamingText_def)

lemma merge_extend: "mergeStreamingText a (a @ b) = a @ b"
  by (simp add: mergeStreamingText_def startsWith_def)

lemma overlapLoop_suffix: "suffix d (overlapLoop e d n)"
proof (induction n)
  case 0
  show ?case by (simp add: suffix_def)
next
  case (Suc n)
  show ?case
  proof (cases "endsWith e (take (Suc n) d)")
    case True
    then obtain u where "e = u @ take (Suc n) d"
      by (auto simp: endsWith_suffix suffix_def)
    then have "e @ drop (Suc n) d = u @ d"
      by (metis append.assoc append_take_drop_id)
    with True show ?thesis by (simp add: suffix_def)
  next
    case False
    with Suc.IH show ?thesis by simp
  qed
qed

lemma merge_suffix_fixed:
  assumes "suffix d r"
  shows "mergeStreamingText r d = r"
proof -
  from assms have len: "length d \<le> length r"
    by (auto simp: suffix_def)
  have eq: "prefix r d \<Longrightarrow> d = r"
    using len by (auto simp: prefix_def)
  have loop: "d \<noteq> [] \<Longrightarrow> overlapLoop r d (length d) = r"
    using overlapLoop_greatest [of "length d" "length d" r d] assms
    by (simp add: endsWith_suffix)
  from len have "min (length r) (length d) = length d" by simp
  then show ?thesis
    using eq loop assms by (auto simp: mergeStreamingText_def startsWith_prefix)
qed

lemma merge_prefix_fixed:
  assumes "prefix d r"
  shows "mergeStreamingText r d = r"
  using assms by (auto simp: mergeStreamingText_def startsWith_prefix dest: prefix_order.antisym)

lemma merge_result_suffix_or_prefix:
  "suffix d (mergeStreamingText t d) \<or> prefix d (mergeStreamingText t d)"
  by (auto simp: mergeStreamingText_def startsWith_prefix overlapLoop_suffix)

lemma merge_dup: "mergeStreamingText (mergeStreamingText t d) d = mergeStreamingText t d"
  using merge_result_suffix_or_prefix [of d t] merge_suffix_fixed merge_prefix_fixed by blast

lemma foldl_dup:
  "foldl mergeStreamingText t (concat (map (\<lambda>d. [d, d]) ds)) = foldl mergeStreamingText t ds"
  by (induction ds arbitrary: t) (simp_all add: merge_dup)

lemma foldl_prefix_fixed:
  "\<forall>d \<in> set ds. startsWith r d \<Longrightarrow> foldl mergeStreamingText r ds = r"
  by (induction ds) (simp_all add: merge_prefix_fixed startsWith_prefix)

lemma merge_overlap:
  assumes great: "\<forall>k. length b < k \<and> k \<le> min (length (a @ b)) (length (b @ c))
            \<longrightarrow> \<not> endsWith (a @ b) (take k (b @ c))"
    and pre: "startsWith (a @ b) (b @ c) \<longrightarrow> c = []"
  shows "mergeStreamingText (a @ b) (b @ c) = a @ b @ c"
proof -
  have ov: "endsWith (a @ b) (take (length b) (b @ c))"
    by (simp add: endsWith_def)
  have le: "length b \<le> min (length (a @ b)) (length (b @ c))" by simp
  have loop: "overlapLoop (a @ b) (b @ c) (min (length (a @ b)) (length (b @ c)))
                = (a @ b) @ drop (length b) (b @ c)"
    using overlapLoop_greatest [OF le great] ov by blast
  have full: "startsWith (b @ c) (a @ b) \<Longrightarrow> a = []"
  proof (rule ccontr)
    assume sw: "startsWith (b @ c) (a @ b)" and "a \<noteq> []"
    then have "length b < length (a @ b)" by simp
    moreover from sw have "length (a @ b) \<le> length (b @ c)"
      using prefix_length_le [of "a @ b" "b @ c"] by (simp add: startsWith_prefix)
    moreover from sw have "endsWith (a @ b) (take (length (a @ b)) (b @ c))"
      by (simp add: startsWith_def endsWith_def)
    ultimately show False using great by (metis min.idem min.absorb1 order_refl min_def)
  qed
  show ?thesis
  proof (cases "b @ c = [] \<or> a @ b = [] \<or> b @ c = a @ b
                 \<or> startsWith (b @ c) (a @ b) \<or> startsWith (a @ b) (b @ c)")
    case False
    then show ?thesis using loop by (simp add: mergeStreamingText_def)
  next
    case True
    then show ?thesis
      using full pre by (auto simp: mergeStreamingText_def startsWith_prefix)
  qed
qed

section \<open>Overlap merge: the laws\<close>

text \<open>
  Claim C2, as stated: \<open>merge(a, a) = a\<close>, \<open>merge(a, a + b) = a + b\<close> and
  \<open>merge(a + b, b + c) = a + b + c\<close> for all strings.  The third law fails: with
  \<open>a = "ab"\<close>, \<open>b = "a"\<close>, \<open>c = "ba"\<close> the delta equals the existing text, which is
  returned unchanged.
\<close>

theorem mergeStreamingText_third_law_counterexample:
  "mergeStreamingText (''ab'' @ ''a'') (''a'' @ ''ba'') \<noteq> ''ab'' @ ''a'' @ ''ba''"
  by (simp add: mergeStreamingText_def)

text \<open>
  Claim C2, amended: the first two laws hold for all strings; the third holds whenever
  \<open>b\<close> is the greatest overlap (no longer prefix of the delta \<open>b + c\<close> ends the existing
  text \<open>a + b\<close>) and the delta is not a prefix of the existing text unless \<open>c\<close> is empty
  (a delta that the existing text starts with is a retransmission and changes nothing).
\<close>

theorem mergeStreamingText_overlap_laws:
  "mergeStreamingText a a = a
   \<and> mergeStreamingText a (a @ b) = a @ b
   \<and> ((\<forall>k. length b < k \<and> k \<le> min (length (a @ b)) (length (b @ c))
            \<longrightarrow> \<not> endsWith (a @ b) (take k (b @ c)))
        \<and> (startsWith (a @ b) (b @ c) \<longrightarrow> c = [])
       \<longrightarrow> mergeStreamingText (a @ b) (b @ c) = a @ b @ c)"
  using merge_same merge_extend merge_overlap by blast

theorem mergeStreamingText_overlap_laws_witness:
  "mergeStreamingText ''hel'' (''hel'' @ ''lo'') = ''hel'' @ ''lo''
   \<and> mergeStreamingText (''hel'' @ ''lo'') (''lo'' @ '' world'') = ''hel'' @ ''lo'' @ '' world''"
proof -
  have great: "\<forall>k. length ''lo'' < k
        \<and> k \<le> min (length (''hel'' @ ''lo'')) (length (''lo'' @ '' world''))
        \<longrightarrow> \<not> endsWith (''hel'' @ ''lo'') (take k (''lo'' @ '' world''))"
  proof (intro allI impI)
    fix k :: nat
    assume "length ''lo'' < k
        \<and> k \<le> min (length (''hel'' @ ''lo'')) (length (''lo'' @ '' world''))"
    then have "k = 3 \<or> k = 4 \<or> k = 5" by auto
    then show "\<not> endsWith (''hel'' @ ''lo'') (take k (''lo'' @ '' world''))"
      by (auto simp: endsWith_def)
  qed
  have pre: "startsWith (''hel'' @ ''lo'') (''lo'' @ '' world'') \<longrightarrow> '' world'' = []"
    by (simp add: startsWith_def)
  from great pre mergeStreamingText_overlap_laws [of "''hel''" "''lo''" "'' world''"]
  show ?thesis by blast
qed

text \<open>
  Claim C3, as stated: folding the merge over a sequence of deltas and then folding the
  same sequence again from the first result gives the first result.  It fails for the
  three one-letter deltas \<open>a\<close>, \<open>b\<close>, \<open>c\<close>: the first pass gives \<open>abc\<close>, the replay
  gives \<open>abcbc\<close>.
\<close>

theorem replay_sequence_counterexample:
  "foldl mergeStreamingText (foldl mergeStreamingText [] [''a'', ''b'', ''c''])
      [''a'', ''b'', ''c'']
   \<noteq> foldl mergeStreamingText [] [''a'', ''b'', ''c'']"
  by (simp add: mergeStreamingText_def startsWith_def endsWith_def)

text \<open>
  Claim C3, amended: a delta delivered a second time immediately after the first leaves
  the text unchanged, so a sequence in which every delta is delivered twice in a row ends
  in the same text as the sequence delivered once; and replaying a whole sequence after
  the first pass ends in the same text whenever every delta of the sequence is a prefix
  of the first result (cumulative deltas).
\<close>

theorem mergeStreamingText_duplicate_idempotent:
  "mergeStreamingText (mergeStreamingText t d) d = mergeStreamingText t d
   \<and> foldl mergeStreamingText t (concat (map (\<lambda>d. [d, d]) ds)) = foldl mergeStreamingText t ds
   \<and> ((\<forall>d \<in> set ds. startsWith (foldl mergeStreamingText t ds) d)
       \<longrightarrow> foldl mergeStreamingText (foldl mergeStreamingText t ds) ds
           = foldl mergeStreamingText t ds)"
  using merge_dup foldl_dup foldl_prefix_fixed by blast

theorem mergeStreamingText_duplicate_idempotent_witness:
  "foldl mergeStreamingText (foldl mergeStreamingText [] [''ab'', ''abc'']) [''ab'', ''abc'']
     = ''abc''"
proof -
  have val: "foldl mergeStreamingText [] [''ab'', ''abc''] = ''abc''"
    by (simp add: mergeStreamingText_def startsWith_def)
  have pre: "\<forall>d \<in> set [''ab'', ''abc'']. startsWith (foldl mergeStreamingText [] [''ab'', ''abc'']) d"
    by (simp only: val) (simp add: startsWith_def)
  from pre mergeStreamingText_duplicate_idempotent [of "[]" "''ab''" "[''ab'', ''abc'']"]
  have "foldl mergeStreamingText (foldl mergeStreamingText [] [''ab'', ''abc'']) [''ab'', ''abc'']
          = foldl mergeStreamingText [] [''ab'', ''abc'']"
    by blast
  then show ?thesis by (simp only: val)
qed

section \<open>Verification: ingest normalization\<close>

lemmas normalize_eval = normalizeStreamingText_def keptBefore_def fenceAhead_def
  orderedAhead_def bulletAhead_def newlineAhead_def isDigit_def isWhiteSpace_def
  NL_def CR_def SP_def

lemma collapseAt_NL: "collapseAt (Some NL) r = collapseAt None r"
  by (cases r) simp_all

lemma collapseNewlines_collapseAt: "collapseNewlines u = collapseAt None u"
proof (induction u rule: collapseNewlines.induct)
  case (1 c n rest)
  show ?case
  proof (cases "c \<noteq> NL \<and> n = NL \<and> \<not> keptBefore rest")
    case True
    with 1 show ?thesis by (simp add: collapseAt_NL)
  next
    case False
    with 1 show ?thesis by auto
  qed
qed simp_all

lemma length_collapseAt: "length (collapseAt p u) = length u"
  by (induction u arbitrary: p) simp_all

lemma collapseAt_nth:
  "i < length u \<Longrightarrow>
   collapseAt p u ! i =
     (if u ! i = NL \<and> (if i = 0 then p \<noteq> None \<and> p \<noteq> Some NL else u ! (i - 1) \<noteq> NL)
         \<and> \<not> keptBefore (drop (Suc i) u)
      then SP else u ! i)"
proof (induction u arbitrary: p i)
  case Nil
  then show ?case by simp
next
  case (Cons c rest)
  show ?case
  proof (cases i)
    case 0
    then show ?thesis by auto
  next
    case (Suc j)
    with Cons.prems have "j < length rest" by simp
    from Cons.IH [OF this, of "Some c"] Suc show ?thesis
      by (cases j) simp_all
  qed
qed

lemma collapseNewlines_nth:
  "i < length u \<Longrightarrow>
   collapseNewlines u ! i =
     (if u ! i = NL \<and> 0 < i \<and> u ! (i - 1) \<noteq> NL \<and> \<not> keptBefore (drop (Suc i) u)
      then SP else u ! i)"
  by (simp add: collapseNewlines_collapseAt collapseAt_nth)

lemma unifyNewlines_crlf:
  "unifyNewlines (xs @ CR # NL # ys) = unifyNewlines xs @ NL # unifyNewlines ys"
  by (induction xs rule: unifyNewlines.induct) (auto simp: NL_def CR_def)

text \<open>
  Claim C8, as stated: after CRLF is turned into LF, each single newline not followed by
  another newline, a list bullet, an ordered-list marker or a code fence becomes a space,
  and fenced code is left untouched.  Neither holds of the code.  A fragment that begins
  with a newline keeps it (the expression needs a code unit other than a newline before
  the newline it replaces): \<open>"\nb"\<close> stays \<open>"\nb"\<close> and does not become \<open>" b"\<close>.
  And the lines inside a fence are joined like any others: the five lines
  \<open>"```\na\nb\n```"\<close> are changed.
\<close>

theorem normalizeStreamingText_counterexample:
  "normalizeStreamingText [0x0A, 0x62] \<noteq> [0x20, 0x62]
   \<and> normalizeStreamingText [0x60, 0x60, 0x60, 0x0A, 0x61, 0x0A, 0x62, 0x0A, 0x60, 0x60, 0x60]
       \<noteq> [0x60, 0x60, 0x60, 0x0A, 0x61, 0x0A, 0x62, 0x0A, 0x60, 0x60, 0x60]"
  by (simp add: normalize_eval)

text \<open>
  Claim C8, amended: normalization first turns every CRLF pair into LF, and then replaces
  by a space exactly the newlines that stand directly after a code unit other than a
  newline and are not followed by another newline, a list bullet (\<open>-\<close> or \<open>*\<close> and white
  space), an ordered-list marker (digits, a dot, white space) or three backquotes; every
  other code unit is kept, so the length is that of the text with LF line ends.  A newline
  at the start of the fragment and the newlines of a run of newlines are kept.
\<close>

theorem normalizeStreamingText_positions:
  "unifyNewlines (xs @ CR # NL # ys) = unifyNewlines xs @ NL # unifyNewlines ys
   \<and> length (normalizeStreamingText t) = length (unifyNewlines t)
   \<and> (\<forall>i < length (unifyNewlines t).
        normalizeStreamingText t ! i =
          (if unifyNewlines t ! i = NL \<and> 0 < i \<and> unifyNewlines t ! (i - 1) \<noteq> NL
              \<and> \<not> keptBefore (drop (Suc i) (unifyNewlines t))
           then SP else unifyNewlines t ! i))"
proof (intro conjI allI impI)
  show "unifyNewlines (xs @ CR # NL # ys) = unifyNewlines xs @ NL # unifyNewlines ys"
    by (rule unifyNewlines_crlf)
  show "length (normalizeStreamingText t) = length (unifyNewlines t)"
    by (simp add: normalizeStreamingText_def collapseNewlines_collapseAt length_collapseAt)
next
  fix i
  assume i: "i < length (unifyNewlines t)"
  then have "t \<noteq> []" by auto
  then have "normalizeStreamingText t = collapseNewlines (unifyNewlines t)"
    by (simp add: normalizeStreamingText_def)
  with collapseNewlines_nth [OF i]
  show "normalizeStreamingText t ! i =
          (if unifyNewlines t ! i = NL \<and> 0 < i \<and> unifyNewlines t ! (i - 1) \<noteq> NL
              \<and> \<not> keptBefore (drop (Suc i) (unifyNewlines t))
           then SP else unifyNewlines t ! i)"
    by simp
qed

theorem normalizeStreamingText_positions_witness:
  "normalizeStreamingText [0x61, 0x0D, 0x0A, 0x62] ! 1 = SP
   \<and> length (normalizeStreamingText [0x61, 0x0D, 0x0A, 0x62]) = 3"
proof -
  have u: "unifyNewlines [0x61, 0x0D, 0x0A, 0x62] = [0x61, 0x0A, 0x62]"
    by (simp add: NL_def CR_def)
  have k: "\<not> keptBefore [0x62]"
    by (simp add: normalize_eval)
  from normalizeStreamingText_positions [of "[]" "[]" "[0x61, 0x0D, 0x0A, 0x62]"]
  have len: "length (normalizeStreamingText [0x61, 0x0D, 0x0A, 0x62])
               = length (unifyNewlines [0x61, 0x0D, 0x0A, 0x62])"
    and pos: "\<forall>i < length (unifyNewlines [0x61, 0x0D, 0x0A, 0x62]).
        normalizeStreamingText [0x61, 0x0D, 0x0A, 0x62] ! i =
          (if unifyNewlines [0x61, 0x0D, 0x0A, 0x62] ! i = NL \<and> 0 < i
              \<and> unifyNewlines [0x61, 0x0D, 0x0A, 0x62] ! (i - 1) \<noteq> NL
              \<and> \<not> keptBefore (drop (Suc i) (unifyNewlines [0x61, 0x0D, 0x0A, 0x62]))
           then SP else unifyNewlines [0x61, 0x0D, 0x0A, 0x62] ! i)"
    by blast+
  from pos [unfolded u, rule_format, of 1] k
  have "normalizeStreamingText [0x61, 0x0D, 0x0A, 0x62] ! 1 = SP"
    by (simp add: NL_def)
  with len [unfolded u] show ?thesis by simp
qed

section \<open>Verification: the session input stream\<close>







section \<open>Verification: the permission handler\<close>

lemma set_alist_update: "set (AList.update k v al) \<subseteq> insert (k, v) (set al)"
  by (induction al) auto

lemma set_alist_delete: "set (AList.delete k al) = {p \<in> set al. fst p \<noteq> k}"
  by (induction al) auto

lemma foldl_preserves:
  assumes "P s" and step: "\<And>s x. x \<in> set xs \<Longrightarrow> P s \<Longrightarrow> P (f s x)"
  shows "P (foldl f s xs)"
  using assms
proof (induction xs arbitrary: s)
  case Nil
  then show ?case by simp
next
  case (Cons x xs)
  have "P (f s x)" by (rule Cons.prems(2)) (simp_all add: Cons.prems(1))
  moreover have "\<And>s y. y \<in> set xs \<Longrightarrow> P s \<Longrightarrow> P (f s y)"
    by (rule Cons.prems(2)) simp_all
  ultimately have "P (foldl f (f s x) xs)" by (rule Cons.IH)
  then show ?case by simp
qed

lemma perm_invD:
  assumes "perm_inv s"
  shows "\<And>p. p \<in> set (timers s) \<Longrightarrow> fst p < requests s"
    and "\<And>p. p \<in> set (listeners s) \<Longrightarrow> fst p < requests s"
    and "\<And>p. p \<in> set (settled s) \<Longrightarrow> fst p < requests s"
    and "\<And>kp. kp \<in> set (pending s) \<Longrightarrow> resolver (snd kp) < requests s"
    and "\<And>kp. kp \<in> set (pending s) \<Longrightarrow> timeoutId (snd kp) = resolver (snd kp)"
    and "\<And>kp q. kp \<in> set (pending s) \<Longrightarrow> q \<in> set (settled s) \<Longrightarrow> fst q \<noteq> resolver (snd kp)"
    and "\<And>kp kp'. kp \<in> set (pending s) \<Longrightarrow> kp' \<in> set (pending s) \<Longrightarrow>
            resolver (snd kp) = resolver (snd kp') \<Longrightarrow> fst kp = fst kp'"
    and "\<And>p q. p \<in> set (timers s) \<Longrightarrow> q \<in> set (listeners s) \<Longrightarrow>
            fst p = fst q \<Longrightarrow> snd (snd p) = snd q"
    and "\<And>kp p. kp \<in> set (pending s) \<Longrightarrow> p \<in> set (timers s) \<Longrightarrow>
            resolver (snd kp) = fst p \<Longrightarrow> fst kp = snd (snd p)"
    and "\<And>kp q. kp \<in> set (pending s) \<Longrightarrow> q \<in> set (listeners s) \<Longrightarrow>
            resolver (snd kp) = fst q \<Longrightarrow> fst kp = snd q"
proof -
  from assms have a: "\<forall>p \<in> set (timers s). fst p < requests s"
    and b: "\<forall>p \<in> set (listeners s). fst p < requests s"
    and c: "\<forall>p \<in> set (settled s). fst p < requests s"
    and d: "\<forall>kp \<in> set (pending s). resolver (snd kp) < requests s
            \<and> timeoutId (snd kp) = resolver (snd kp)
            \<and> resolver (snd kp) \<notin> fst ` set (settled s)"
    and e: "\<forall>kp \<in> set (pending s). \<forall>kp' \<in> set (pending s).
            resolver (snd kp) = resolver (snd kp') \<longrightarrow> fst kp = fst kp'"
    and f: "\<forall>p \<in> set (timers s). \<forall>q \<in> set (listeners s).
            fst p = fst q \<longrightarrow> snd (snd p) = snd q"
    and g: "\<forall>kp \<in> set (pending s). \<forall>p \<in> set (timers s).
            resolver (snd kp) = fst p \<longrightarrow> fst kp = snd (snd p)"
    and h: "\<forall>kp \<in> set (pending s). \<forall>q \<in> set (listeners s).
            resolver (snd kp) = fst q \<longrightarrow> fst kp = snd q"
    unfolding perm_inv_def by blast+
  show "\<And>p. p \<in> set (timers s) \<Longrightarrow> fst p < requests s" using a by blast
  show "\<And>p. p \<in> set (listeners s) \<Longrightarrow> fst p < requests s" using b by blast
  show "\<And>p. p \<in> set (settled s) \<Longrightarrow> fst p < requests s" using c by blast
  show "\<And>kp. kp \<in> set (pending s) \<Longrightarrow> resolver (snd kp) < requests s" using d by blast
  show "\<And>kp. kp \<in> set (pending s) \<Longrightarrow> timeoutId (snd kp) = resolver (snd kp)" using d by blast
  show "\<And>kp q. kp \<in> set (pending s) \<Longrightarrow> q \<in> set (settled s) \<Longrightarrow> fst q \<noteq> resolver (snd kp)"
    using d by (metis imageI)
  show "\<And>kp kp'. kp \<in> set (pending s) \<Longrightarrow> kp' \<in> set (pending s) \<Longrightarrow>
            resolver (snd kp) = resolver (snd kp') \<Longrightarrow> fst kp = fst kp'" using e by blast
  show "\<And>p q. p \<in> set (timers s) \<Longrightarrow> q \<in> set (listeners s) \<Longrightarrow>
            fst p = fst q \<Longrightarrow> snd (snd p) = snd q" using f by blast
  show "\<And>kp p. kp \<in> set (pending s) \<Longrightarrow> p \<in> set (timers s) \<Longrightarrow>
            resolver (snd kp) = fst p \<Longrightarrow> fst kp = snd (snd p)" using g by blast
  show "\<And>kp q. kp \<in> set (pending s) \<Longrightarrow> q \<in> set (listeners s) \<Longrightarrow>
            resolver (snd kp) = fst q \<Longrightarrow> fst kp = snd q" using h by blast
qed

lemma perm_invI:
  assumes a: "\<And>p. p \<in> set (timers s) \<Longrightarrow> fst p < requests s"
    and b: "\<And>p. p \<in> set (listeners s) \<Longrightarrow> fst p < requests s"
    and c: "\<And>p. p \<in> set (settled s) \<Longrightarrow> fst p < requests s"
    and d1: "\<And>kp. kp \<in> set (pending s) \<Longrightarrow> resolver (snd kp) < requests s"
    and d2: "\<And>kp. kp \<in> set (pending s) \<Longrightarrow> timeoutId (snd kp) = resolver (snd kp)"
    and d3: "\<And>kp q. kp \<in> set (pending s) \<Longrightarrow> q \<in> set (settled s) \<Longrightarrow> fst q \<noteq> resolver (snd kp)"
    and e: "\<And>kp kp'. kp \<in> set (pending s) \<Longrightarrow> kp' \<in> set (pending s) \<Longrightarrow>
            resolver (snd kp) = resolver (snd kp') \<Longrightarrow> fst kp = fst kp'"
    and f: "\<And>p q. p \<in> set (timers s) \<Longrightarrow> q \<in> set (listeners s) \<Longrightarrow>
            fst p = fst q \<Longrightarrow> snd (snd p) = snd q"
    and g: "\<And>kp p. kp \<in> set (pending s) \<Longrightarrow> p \<in> set (timers s) \<Longrightarrow>
            resolver (snd kp) = fst p \<Longrightarrow> fst kp = snd (snd p)"
    and h: "\<And>kp q. kp \<in> set (pending s) \<Longrightarrow> q \<in> set (listeners s) \<Longrightarrow>
            resolver (snd kp) = fst q \<Longrightarrow> fst kp = snd q"
  shows "perm_inv s"
  unfolding perm_inv_def
proof (intro conjI ballI impI)
  fix kp assume "kp \<in> set (pending s)"
  then show "resolver (snd kp) \<notin> fst ` set (settled s)" using d3 by (metis imageE)
qed (use a b c d1 d2 e f g h in blast)+

lemma perm_inv_shrink:
  assumes inv: "perm_inv s"
    and t: "set (timers s') \<subseteq> set (timers s)"
    and l: "set (listeners s') \<subseteq> set (listeners s)"
    and p: "set (pending s') \<subseteq> set (pending s)"
    and r: "requests s' = requests s"
    and st: "set (settled s') \<subseteq> set (settled s) \<union> X"
    and x: "\<And>x. x \<in> X \<Longrightarrow> fst x < requests s \<and> fst x \<notin> resolvers s'"
  shows "perm_inv s'"
proof (rule perm_invI)
  note D = perm_invD [OF inv]
  fix q assume "q \<in> set (timers s')"
  with t have "q \<in> set (timers s)" by blast
  then show "fst q < requests s'" using D(1) r by simp
next
  note D = perm_invD [OF inv]
  fix q assume "q \<in> set (listeners s')"
  with l have "q \<in> set (listeners s)" by blast
  then show "fst q < requests s'" using D(2) r by simp
next
  note D = perm_invD [OF inv]
  fix q assume "q \<in> set (settled s')"
  with st have "q \<in> set (settled s) \<or> q \<in> X" by blast
  then show "fst q < requests s'" using D(3) [of q] x [of q] r by auto
next
  note D = perm_invD [OF inv]
  fix kp assume "kp \<in> set (pending s')"
  with p have "kp \<in> set (pending s)" by blast
  then show "resolver (snd kp) < requests s'" using D(4) r by simp
next
  note D = perm_invD [OF inv]
  fix kp assume "kp \<in> set (pending s')"
  with p have "kp \<in> set (pending s)" by blast
  then show "timeoutId (snd kp) = resolver (snd kp)" using D(5) by simp
next
  note D = perm_invD [OF inv]
  fix kp q assume kp: "kp \<in> set (pending s')" and q: "q \<in> set (settled s')"
  from kp p have kp0: "kp \<in> set (pending s)" by blast
  from q st have "q \<in> set (settled s) \<or> q \<in> X" by blast
  then show "fst q \<noteq> resolver (snd kp)"
  proof
    assume "q \<in> set (settled s)"
    with kp0 show ?thesis using D(6) by blast
  next
    assume "q \<in> X"
    then have "fst q \<notin> resolvers s'" using x by blast
    with kp show ?thesis unfolding resolvers_def by (metis imageI)
  qed
next
  note D = perm_invD [OF inv]
  fix kp kp' assume "kp \<in> set (pending s')" "kp' \<in> set (pending s')"
    "resolver (snd kp) = resolver (snd kp')"
  with p show "fst kp = fst kp'" using D(7) [of kp kp'] by blast
next
  note D = perm_invD [OF inv]
  fix a b assume "a \<in> set (timers s')" "b \<in> set (listeners s')" "fst a = fst b"
  with t l show "snd (snd a) = snd b" using D(8) [of a b] by blast
next
  note D = perm_invD [OF inv]
  fix kp a assume "kp \<in> set (pending s')" "a \<in> set (timers s')" "resolver (snd kp) = fst a"
  with t p show "fst kp = snd (snd a)" using D(9) [of kp a] by blast
next
  note D = perm_invD [OF inv]
  fix kp b assume "kp \<in> set (pending s')" "b \<in> set (listeners s')" "resolver (snd kp) = fst b"
  with l p show "fst kp = snd b" using D(10) [of kp b] by blast
qed

lemma perm_inv_new: "perm_inv (newPermissionHandler ms)"
  by (simp add: perm_inv_def newPermissionHandler_def)

lemma canUseTool_fields:
  "timers (canUseTool sid ws tn t s) = timers s @ [(requests s, timeoutMs s, t)]"
  "listeners (canUseTool sid ws tn t s) = listeners s @ [(requests s, t)]"
  "settled (canUseTool sid ws tn t s) = settled s"
  "requests (canUseTool sid ws tn t s) = Suc (requests s)"
  "pending (canUseTool sid ws tn t s) = AList.update t
          \<lparr>toolUseId = t, sessionId = sid, workspaceId = ws,
           resolver = requests s, timeoutId = requests s\<rparr> (pending s)"
  by (simp_all add: canUseTool_def)

lemma canUseTool_pending_cases:
  assumes "kp \<in> set (pending (canUseTool sid ws tn t s))"
  shows "(fst kp = t \<and> resolver (snd kp) = requests s \<and> timeoutId (snd kp) = requests s)
         \<or> kp \<in> set (pending s)"
  using assms set_alist_update [of t _ "pending s"]
  unfolding canUseTool_fields by fastforce

lemma perm_inv_canUseTool:
  assumes inv: "perm_inv s"
  shows "perm_inv (canUseTool sid ws tn t s)"
proof (rule perm_invI)
  note D = perm_invD [OF inv]
  fix q assume "q \<in> set (timers (canUseTool sid ws tn t s))"
  then have "q \<in> set (timers s) \<or> fst q = requests s" by (auto simp: canUseTool_fields)
  then show "fst q < requests (canUseTool sid ws tn t s)"
    using D(1) [of q] by (auto simp: canUseTool_fields)
next
  note D = perm_invD [OF inv]
  fix q assume "q \<in> set (listeners (canUseTool sid ws tn t s))"
  then have "q \<in> set (listeners s) \<or> fst q = requests s" by (auto simp: canUseTool_fields)
  then show "fst q < requests (canUseTool sid ws tn t s)"
    using D(2) [of q] by (auto simp: canUseTool_fields)
next
  note D = perm_invD [OF inv]
  fix q assume "q \<in> set (settled (canUseTool sid ws tn t s))"
  then show "fst q < requests (canUseTool sid ws tn t s)"
    using D(3) [of q] by (auto simp: canUseTool_fields)
next
  note D = perm_invD [OF inv]
  fix kp assume "kp \<in> set (pending (canUseTool sid ws tn t s))"
  from canUseTool_pending_cases [OF this]
  show "resolver (snd kp) < requests (canUseTool sid ws tn t s)"
    using D(4) [of kp] by (auto simp: canUseTool_fields)
next
  note D = perm_invD [OF inv]
  fix kp assume "kp \<in> set (pending (canUseTool sid ws tn t s))"
  from canUseTool_pending_cases [OF this]
  show "timeoutId (snd kp) = resolver (snd kp)"
    using D(5) [of kp] by auto
next
  note D = perm_invD [OF inv]
  fix kp q assume kp: "kp \<in> set (pending (canUseTool sid ws tn t s))"
    and "q \<in> set (settled (canUseTool sid ws tn t s))"
  then have q: "q \<in> set (settled s)" by (simp add: canUseTool_fields)
  from canUseTool_pending_cases [OF kp]
  show "fst q \<noteq> resolver (snd kp)"
    using D(6) [of kp q] D(3) [of q] q by auto
next
  note D = perm_invD [OF inv]
  fix kp kp' assume kp: "kp \<in> set (pending (canUseTool sid ws tn t s))"
    and kp': "kp' \<in> set (pending (canUseTool sid ws tn t s))"
    and eq: "resolver (snd kp) = resolver (snd kp')"
  from canUseTool_pending_cases [OF kp] canUseTool_pending_cases [OF kp'] eq
  show "fst kp = fst kp'"
    using D(7) [of kp kp'] D(4) [of kp] D(4) [of kp'] by auto
next
  note D = perm_invD [OF inv]
  fix a b assume a: "a \<in> set (timers (canUseTool sid ws tn t s))"
    and b: "b \<in> set (listeners (canUseTool sid ws tn t s))" and eq: "fst a = fst b"
  from a have a': "a \<in> set (timers s) \<or> a = (requests s, timeoutMs s, t)"
    by (auto simp: canUseTool_fields)
  from b have b': "b \<in> set (listeners s) \<or> b = (requests s, t)"
    by (auto simp: canUseTool_fields)
  from a' b' eq show "snd (snd a) = snd b"
    using D(8) [of a b] D(1) [of a] D(2) [of b] by auto
next
  note D = perm_invD [OF inv]
  fix kp a assume kp: "kp \<in> set (pending (canUseTool sid ws tn t s))"
    and a: "a \<in> set (timers (canUseTool sid ws tn t s))" and eq: "resolver (snd kp) = fst a"
  from a have a': "a \<in> set (timers s) \<or> a = (requests s, timeoutMs s, t)"
    by (auto simp: canUseTool_fields)
  from canUseTool_pending_cases [OF kp] a' eq show "fst kp = snd (snd a)"
    using D(9) [of kp a] D(1) [of a] D(4) [of kp] by auto
next
  note D = perm_invD [OF inv]
  fix kp b assume kp: "kp \<in> set (pending (canUseTool sid ws tn t s))"
    and b: "b \<in> set (listeners (canUseTool sid ws tn t s))" and eq: "resolver (snd kp) = fst b"
  from b have b': "b \<in> set (listeners s) \<or> b = (requests s, t)"
    by (auto simp: canUseTool_fields)
  from canUseTool_pending_cases [OF kp] b' eq show "fst kp = snd b"
    using D(10) [of kp b] D(2) [of b] D(4) [of kp] by auto
qed

lemma set_filter_subset: "set (filter P xs) \<subseteq> set xs"
  by simp

lemma timerFire_cases:
  "timerFire i s = s
   \<or> (\<exists>ms t. map_of (timers s) i = Some (ms, t) \<and> map_of (pending s) t = None
        \<and> timerFire i s = clearTimeout i s)
   \<or> (\<exists>ms t p. map_of (timers s) i = Some (ms, t) \<and> map_of (pending s) t = Some p
        \<and> timerFire i s = settle i (Resolved (Deny ''Permission request timed out'' t))
                 ((clearTimeout i s)\<lparr>pending := AList.delete t (pending s)\<rparr>))"
  by (auto simp: timerFire_def split: option.splits)

lemma abort_cases:
  "abort i s = s
   \<or> (\<exists>t. map_of (listeners s) i = Some t \<and> map_of (pending s) t = None
        \<and> abort i s = removeListener i s)
   \<or> (\<exists>t p. map_of (listeners s) i = Some t \<and> map_of (pending s) t = Some p
        \<and> abort i s = settle i (Rejected ''Permission request aborted'')
                 ((clearTimeout (timeoutId p) (removeListener i s))
                    \<lparr>pending := AList.delete t (pending s)\<rparr>))"
  by (auto simp: abort_def split: option.splits)

lemmas perm_defs = clearTimeout_def removeListener_def settle_def

lemma settle_shrink_fields:
  "set (timers (settle i r ((clearTimeout j (removeListener l s))\<lparr>pending := AList.delete t (pending s)\<rparr>)))
     \<subseteq> set (timers s)"
  "set (listeners (settle i r ((clearTimeout j (removeListener l s))\<lparr>pending := AList.delete t (pending s)\<rparr>)))
     \<subseteq> set (listeners s)"
  "set (pending (settle i r ((clearTimeout j (removeListener l s))\<lparr>pending := AList.delete t (pending s)\<rparr>)))
     \<subseteq> set (pending s)"
  "requests (settle i r ((clearTimeout j (removeListener l s))\<lparr>pending := AList.delete t (pending s)\<rparr>))
     = requests s"
  "settled (settle i r ((clearTimeout j (removeListener l s))\<lparr>pending := AList.delete t (pending s)\<rparr>))
     = settled s @ [(i, r)]"
  by (auto simp: perm_defs set_alist_delete)

lemma perm_inv_timerFire:
  assumes inv: "perm_inv s"
  shows "perm_inv (timerFire i s)"
proof -
  note D = perm_invD [OF inv]
  from timerFire_cases [of i s] show ?thesis
  proof (elim disjE exE conjE)
    assume "timerFire i s = s"
    with inv show ?thesis by simp
  next
    fix ms t assume "timerFire i s = clearTimeout i s"
    then show ?thesis
      using perm_inv_shrink [OF inv, of "timerFire i s" "{}"] by (simp add: perm_defs)
  next
    fix ms t p
    assume tm: "map_of (timers s) i = Some (ms, t)"
      and eq: "timerFire i s = settle i (Resolved (Deny ''Permission request timed out'' t))
                 ((clearTimeout i s)\<lparr>pending := AList.delete t (pending s)\<rparr>)"
    from tm have mem: "(i, ms, t) \<in> set (timers s)" by (rule map_of_SomeD)
    then have lt: "i < requests s" using D(1) [of "(i, ms, t)"] by simp
    have nores: "i \<notin> resolvers (timerFire i s)"
    proof
      assume "i \<in> resolvers (timerFire i s)"
      then obtain kp where kp: "kp \<in> set (pending s)" "fst kp \<noteq> t" "resolver (snd kp) = i"
        by (auto simp: eq resolvers_def perm_defs set_alist_delete)
      with D(9) [of kp "(i, ms, t)"] mem show False by simp
    qed
    show ?thesis
    proof (rule perm_inv_shrink [OF inv, where X = "{(i, Resolved (Deny ''Permission request timed out'' t))}"])
      show "set (settled (timerFire i s))
              \<subseteq> set (settled s) \<union> {(i, Resolved (Deny ''Permission request timed out'' t))}"
        by (auto simp: eq perm_defs)
      fix x assume "x \<in> {(i, Resolved (Deny ''Permission request timed out'' t))}"
      then show "fst x < requests s \<and> fst x \<notin> resolvers (timerFire i s)"
        using lt nores by simp
    qed (auto simp: eq perm_defs set_alist_delete)
  qed
qed

lemma perm_inv_settle_delete:
  assumes inv: "perm_inv s"
    and lt: "i < requests s"
    and key: "\<And>kp. kp \<in> set (pending s) \<Longrightarrow> resolver (snd kp) = i \<Longrightarrow> fst kp = t"
    and t: "set (timers s') \<subseteq> set (timers s)"
    and l: "set (listeners s') \<subseteq> set (listeners s)"
    and p: "pending s' = AList.delete t (pending s)"
    and r: "requests s' = requests s"
    and st: "settled s' = settled s @ [(i, x)]"
  shows "perm_inv s'"
proof (rule perm_inv_shrink [OF inv t l _ r, where X = "{(i, x)}"])
  show "set (pending s') \<subseteq> set (pending s)" by (auto simp: p set_alist_delete)
  show "set (settled s') \<subseteq> set (settled s) \<union> {(i, x)}" by (auto simp: st)
  fix y assume y: "y \<in> {(i, x)}"
  have "i \<notin> resolvers s'"
  proof
    assume "i \<in> resolvers s'"
    then obtain kp where kp: "kp \<in> set (pending s)" "fst kp \<noteq> t" "resolver (snd kp) = i"
      by (auto simp: resolvers_def p set_alist_delete)
    with key [of kp] show False by simp
  qed
  with y lt show "fst y < requests s \<and> fst y \<notin> resolvers s'" by simp
qed

lemma perm_inv_abort:
  assumes inv: "perm_inv s"
  shows "perm_inv (abort i s)"
proof -
  note D = perm_invD [OF inv]
  from abort_cases [of i s] show ?thesis
  proof (elim disjE exE conjE)
    assume "abort i s = s"
    with inv show ?thesis by simp
  next
    fix t assume "abort i s = removeListener i s"
    then show ?thesis
      using perm_inv_shrink [OF inv, of "abort i s" "{}"] by (simp add: perm_defs)
  next
    fix t p
    assume ls: "map_of (listeners s) i = Some t"
      and eq: "abort i s = settle i (Rejected ''Permission request aborted'')
                 ((clearTimeout (timeoutId p) (removeListener i s))
                    \<lparr>pending := AList.delete t (pending s)\<rparr>)"
    from ls have mem: "(i, t) \<in> set (listeners s)" by (rule map_of_SomeD)
    show ?thesis
    proof (rule perm_inv_settle_delete [OF inv, where i = i and t = t
            and x = "Rejected ''Permission request aborted''"])
      show "i < requests s" using D(2) [OF mem] by simp
      fix kp assume "kp \<in> set (pending s)" "resolver (snd kp) = i"
      then show "fst kp = t" using D(10) [of kp "(i, t)"] mem by simp
    qed (auto simp: eq perm_defs)
  qed
qed

lemma respond_Some:
  assumes "map_of (pending s) t = Some p"
  shows "respond t d m u s =
          (True,
           settle (resolver p)
             (Resolved
               (if d = ''allow'' then Allow u t
                else Deny (case m of None \<Rightarrow> ''Permission denied by user'' | Some m \<Rightarrow> m) t))
             (removeListener (resolver p)
               ((clearTimeout (timeoutId p) s)\<lparr>pending := AList.delete t (pending s)\<rparr>)))"
  using assms by (simp add: respond_def)

lemma respond_None: "map_of (pending s) t = None \<Longrightarrow> respond t d m u s = (False, s)"
  by (simp add: respond_def)

lemma perm_inv_respond:
  assumes inv: "perm_inv s"
  shows "perm_inv (snd (respond t d m u s))"
proof (cases "map_of (pending s) t")
  case None
  with inv show ?thesis by (simp add: respond_None)
next
  case (Some p)
  note D = perm_invD [OF inv]
  from Some have mem: "(t, p) \<in> set (pending s)" by (rule map_of_SomeD)
  show ?thesis
  proof (rule perm_inv_settle_delete [OF inv, where i = "resolver p" and t = t
          and x = "Resolved
               (if d = ''allow'' then Allow u t
                else Deny (case m of None \<Rightarrow> ''Permission denied by user'' | Some m \<Rightarrow> m) t)"])
    show "resolver p < requests s" using D(4) [OF mem] by simp
    fix kp assume "kp \<in> set (pending s)" "resolver (snd kp) = resolver p"
    then show "fst kp = t" using D(7) [of kp "(t, p)"] mem by simp
  qed (auto simp: respond_Some [OF Some] perm_defs)
qed

lemma cancelEntry_fields:
  "timers (cancelEntry msg s kp) = filter (\<lambda>p. fst p \<noteq> timeoutId (snd kp)) (timers s)"
  "listeners (cancelEntry msg s kp) = filter (\<lambda>p. fst p \<noteq> resolver (snd kp)) (listeners s)"
  "pending (cancelEntry msg s kp) = AList.delete (fst kp) (pending s)"
  "settled (cancelEntry msg s kp) = settled s @ [(resolver (snd kp), Rejected msg)]"
  "requests (cancelEntry msg s kp) = requests s"
  by (simp_all add: cancelEntry_def perm_defs)

lemma cancel_inv_step:
  assumes ci: "cancel_inv es s" and kp: "kp \<in> set es"
  shows "cancel_inv es (cancelEntry msg s kp)"
proof -
  from ci have inv: "perm_inv s" by (simp add: cancel_inv_def)
  note D = perm_invD [OF inv]
  from ci kp have lt: "resolver (snd kp) < requests s"
    and pres: "kp \<in> set (pending s) \<or> resolver (snd kp) \<notin> resolvers s"
    by (auto simp: cancel_inv_def)
  have key: "fst kp' = fst kp"
    if a: "kp' \<in> set (pending s)" and b: "resolver (snd kp') = resolver (snd kp)" for kp'
  proof -
    from a b have "resolver (snd kp) \<in> resolvers s"
      unfolding resolvers_def by (metis imageI)
    with pres have "kp \<in> set (pending s)" by simp
    with a b show ?thesis using D(7) [of kp' kp] by simp
  qed
  have inv': "perm_inv (cancelEntry msg s kp)"
    by (rule perm_inv_settle_delete [OF inv lt key, where x = "Rejected msg"])
       (auto simp: cancelEntry_fields)
  have sub: "set (pending (cancelEntry msg s kp)) = {q \<in> set (pending s). fst q \<noteq> fst kp}"
    by (simp add: cancelEntry_fields set_alist_delete)
  have "\<forall>q \<in> set es. resolver (snd q) < requests (cancelEntry msg s kp)
        \<and> (q \<in> set (pending (cancelEntry msg s kp))
            \<or> resolver (snd q) \<notin> resolvers (cancelEntry msg s kp))"
  proof
    fix q assume q: "q \<in> set es"
    with ci have qlt: "resolver (snd q) < requests s"
      and qpres: "q \<in> set (pending s) \<or> resolver (snd q) \<notin> resolvers s"
      by (auto simp: cancel_inv_def)
    have "q \<in> set (pending (cancelEntry msg s kp))
            \<or> resolver (snd q) \<notin> resolvers (cancelEntry msg s kp)"
    proof (cases "q \<in> set (pending s)")
      case True
      show ?thesis
      proof (cases "fst q = fst kp")
        case False
        with True show ?thesis by (simp add: sub)
      next
        case same: True
        have "resolver (snd q) \<notin> resolvers (cancelEntry msg s kp)"
        proof
          assume "resolver (snd q) \<in> resolvers (cancelEntry msg s kp)"
          then obtain q' where q': "q' \<in> set (pending s)" "fst q' \<noteq> fst kp"
            "resolver (snd q') = resolver (snd q)"
            by (auto simp: resolvers_def sub)
          with D(7) [of q' q] True same show False by simp
        qed
        then show ?thesis by simp
      qed
    next
      case False
      with qpres have "resolver (snd q) \<notin> resolvers s" by simp
      then have "resolver (snd q) \<notin> resolvers (cancelEntry msg s kp)"
        by (auto simp: resolvers_def sub)
      then show ?thesis by simp
    qed
    with qlt show "resolver (snd q) < requests (cancelEntry msg s kp)
        \<and> (q \<in> set (pending (cancelEntry msg s kp))
            \<or> resolver (snd q) \<notin> resolvers (cancelEntry msg s kp))"
      by (simp add: cancelEntry_fields)
  qed
  with inv' show ?thesis by (simp add: cancel_inv_def)
qed

lemma cancel_inv_start:
  assumes "perm_inv s"
  shows "cancel_inv (pending s) s"
  unfolding cancel_inv_def
proof (intro conjI ballI)
  show "perm_inv s" by fact
  fix kp assume "kp \<in> set (pending s)"
  then show "resolver (snd kp) < requests s" by (rule perm_invD(4) [OF assms])
qed simp

lemma perm_inv_cancelForSession:
  assumes inv: "perm_inv s"
  shows "perm_inv (cancelForSession sid s)"
proof -
  have "cancel_inv (pending s)
          (foldl (\<lambda>s kp. if PendingPermission.sessionId (snd kp) = sid then cancelEntry ''Session closed'' s kp else s)
             s (pending s))"
    by (rule foldl_preserves [where P = "cancel_inv (pending s)"])
       (simp_all add: cancel_inv_start [OF inv] cancel_inv_step)
  then show ?thesis by (simp add: cancelForSession_def cancel_inv_def)
qed

lemma perm_inv_cancelAll:
  assumes inv: "perm_inv s"
  shows "perm_inv (cancelAll s)"
proof -
  have "cancel_inv (pending s) (foldl (cancelEntry ''Bridge shutting down'') s (pending s))"
    by (rule foldl_preserves [where P = "cancel_inv (pending s)"])
       (simp_all add: cancel_inv_start [OF inv] cancel_inv_step)
  then show ?thesis by (simp add: cancelAll_def cancel_inv_def)
qed

lemma perm_inv_step: "perm_inv s \<Longrightarrow> perm_inv (perm_step s ev)"
  by (cases ev)
     (simp_all add: perm_inv_canUseTool perm_inv_timerFire perm_inv_abort perm_inv_respond
        perm_inv_cancelForSession perm_inv_cancelAll)

lemma perm_inv_run: "perm_inv s \<Longrightarrow> perm_inv (run_perm evs s)"
  unfolding run_perm_def
  by (rule foldl_preserves [where P = perm_inv]) (simp_all add: perm_inv_step)

lemma shrinks_refl: "shrinks s s []"
  by (simp add: shrinks_def)

lemma shrinks_trans:
  "shrinks s s' xs \<Longrightarrow> shrinks s' s'' ys \<Longrightarrow> shrinks s s'' (xs @ ys)"
  unfolding shrinks_def by auto

lemma can_settle_mono:
  assumes "shrinks s s' xs" and "can_settle s' i"
  shows "can_settle s i"
  using assms unfolding shrinks_def can_settle_def resolvers_def by blast

lemma map_of_pending_key: "map_of (pending s) t = Some p \<Longrightarrow> t \<in> fst ` set (pending s)"
  by (metis map_of_eq_None_iff option.distinct(1))

lemma timerFire_shrinks:
  "\<exists>xs. shrinks s (timerFire i s) xs \<and> (\<forall>x \<in> set xs. can_settle s (fst x))"
proof -
  from timerFire_cases [of i s] show ?thesis
  proof (elim disjE exE conjE)
    assume "timerFire i s = s"
    then show ?thesis using shrinks_refl [of s] by (intro exI [of _ "[]"]) simp
  next
    fix ms t assume "timerFire i s = clearTimeout i s"
    then show ?thesis by (intro exI [of _ "[]"]) (auto simp: shrinks_def perm_defs)
  next
    fix ms t p
    assume tm: "map_of (timers s) i = Some (ms, t)"
      and eq: "timerFire i s = settle i (Resolved (Deny ''Permission request timed out'' t))
                 ((clearTimeout i s)\<lparr>pending := AList.delete t (pending s)\<rparr>)"
    from tm have "(i, ms, t) \<in> set (timers s)" by (rule map_of_SomeD)
    then have "i \<in> fst ` set (timers s)" by force
    then show ?thesis
      by (intro exI [of _ "[(i, Resolved (Deny ''Permission request timed out'' t))]"])
         (auto simp: eq shrinks_def perm_defs set_alist_delete can_settle_def)
  qed
qed

lemma abort_shrinks:
  "\<exists>xs. shrinks s (abort i s) xs \<and> (\<forall>x \<in> set xs. can_settle s (fst x))"
proof -
  from abort_cases [of i s] show ?thesis
  proof (elim disjE exE conjE)
    assume "abort i s = s"
    then show ?thesis using shrinks_refl [of s] by (intro exI [of _ "[]"]) simp
  next
    fix t assume "abort i s = removeListener i s"
    then show ?thesis by (intro exI [of _ "[]"]) (auto simp: shrinks_def perm_defs)
  next
    fix t p
    assume ls: "map_of (listeners s) i = Some t" and pd: "map_of (pending s) t = Some p"
      and eq: "abort i s = settle i (Rejected ''Permission request aborted'')
                 ((clearTimeout (timeoutId p) (removeListener i s))
                    \<lparr>pending := AList.delete t (pending s)\<rparr>)"
    from ls have "(i, t) \<in> set (listeners s)" by (rule map_of_SomeD)
    moreover from pd have "t \<in> fst ` set (pending s)" by (rule map_of_pending_key)
    ultimately have "can_settle s i" unfolding can_settle_def by force
    then show ?thesis
      by (intro exI [of _ "[(i, Rejected ''Permission request aborted'')]"])
         (auto simp: eq shrinks_def perm_defs set_alist_delete)
  qed
qed

lemma respond_shrinks:
  "\<exists>xs. shrinks s (snd (respond t d m u s)) xs \<and> (\<forall>x \<in> set xs. can_settle s (fst x))"
proof (cases "map_of (pending s) t")
  case None
  then show ?thesis using shrinks_refl [of s] by (intro exI [of _ "[]"]) (simp add: respond_None)
next
  case (Some p)
  then have "(t, p) \<in> set (pending s)" by (rule map_of_SomeD)
  then have "resolver p \<in> resolvers s" unfolding resolvers_def by force
  then have "can_settle s (resolver p)" by (simp add: can_settle_def)
  then show ?thesis
    by (intro exI [of _ "[(resolver p, Resolved
               (if d = ''allow'' then Allow u t
                else Deny (case m of None \<Rightarrow> ''Permission denied by user'' | Some m \<Rightarrow> m) t))]"])
       (auto simp: respond_Some [OF Some] shrinks_def perm_defs set_alist_delete)
qed

lemma cancelEntry_shrinks:
  "shrinks s (cancelEntry msg s kp) [(resolver (snd kp), Rejected msg)]"
  by (auto simp: shrinks_def cancelEntry_fields set_alist_delete)

lemma cancel_fold_shrinks:
  "\<exists>xs. shrinks s (foldl (\<lambda>s kp. if c kp then cancelEntry msg s kp else s) s (pending s)) xs
        \<and> (\<forall>x \<in> set xs. can_settle s (fst x))"
proof (rule foldl_preserves
    [where P = "\<lambda>s'. \<exists>xs. shrinks s s' xs \<and> (\<forall>x \<in> set xs. can_settle s (fst x))"])
  show "\<exists>xs. shrinks s s xs \<and> (\<forall>x \<in> set xs. can_settle s (fst x))"
    using shrinks_refl [of s] by (intro exI [of _ "[]"]) simp
next
  fix s' kp
  assume kp: "kp \<in> set (pending s)"
    and "\<exists>xs. shrinks s s' xs \<and> (\<forall>x \<in> set xs. can_settle s (fst x))"
  then obtain xs where xs: "shrinks s s' xs" "\<forall>x \<in> set xs. can_settle s (fst x)" by blast
  from kp have cs: "can_settle s (resolver (snd kp))"
    unfolding can_settle_def resolvers_def by blast
  show "\<exists>xs. shrinks s (if c kp then cancelEntry msg s' kp else s') xs
          \<and> (\<forall>x \<in> set xs. can_settle s (fst x))"
  proof (cases "c kp")
    case False
    with xs show ?thesis by auto
  next
    case True
    from shrinks_trans [OF xs(1) cancelEntry_shrinks [of s' msg kp]] xs(2) cs True
    show ?thesis
      by (intro exI [of _ "xs @ [(resolver (snd kp), Rejected msg)]"]) auto
  qed
qed

lemma cancelAll_fold: "cancelAll s
  = foldl (\<lambda>s kp. if True then cancelEntry ''Bridge shutting down'' s kp else s) s (pending s)"
  by (simp add: cancelAll_def)

lemma step_shrinks:
  assumes "\<And>sid ws tn t. ev \<noteq> CanUseTool sid ws tn t"
  shows "\<exists>xs. shrinks s (perm_step s ev) xs \<and> (\<forall>x \<in> set xs. can_settle s (fst x))"
proof (cases ev)
  case (CanUseTool sid ws tn t)
  with assms [of sid ws tn t] show ?thesis by simp
next
  case (TimerFire i)
  then show ?thesis using timerFire_shrinks [of s i] by simp
next
  case (Abort i)
  then show ?thesis using abort_shrinks [of s i] by simp
next
  case (Respond t d m u)
  then show ?thesis using respond_shrinks [of s t d m u] by simp
next
  case (CancelForSession sid)
  then show ?thesis
    using cancel_fold_shrinks [of s "\<lambda>kp. PendingPermission.sessionId (snd kp) = sid" "''Session closed''"]
    by (simp add: cancelForSession_def)
next
  case CancelAll
  then show ?thesis
    using cancel_fold_shrinks [of s "\<lambda>kp. True" "''Bridge shutting down''"]
    by (simp add: cancelAll_fold)
qed

lemma settlements_append:
  "settled s' = settled s @ xs \<Longrightarrow> n \<notin> fst ` set xs \<Longrightarrow> settlements n s' = settlements n s"
proof -
  assume a: "settled s' = settled s @ xs" and b: "n \<notin> fst ` set xs"
  from b have "filter (\<lambda>p. fst p = n) xs = []"
    by (induction xs) auto
  with a show ?thesis by (simp add: settlements_def)
qed

lemma dead_not_can_settle: "dead n s \<Longrightarrow> \<not> can_settle s n"
  unfolding dead_def can_settle_def by force

lemma timed_out_not_can_settle: "timed_out t n s \<Longrightarrow> \<not> can_settle s n"
  unfolding timed_out_def can_settle_def by blast

lemma dead_shrinks: "dead n s \<Longrightarrow> shrinks s s' xs \<Longrightarrow> dead n s'"
  unfolding dead_def shrinks_def resolvers_def by (simp add: image_iff) blast

lemma timed_out_shrinks: "timed_out t n s \<Longrightarrow> shrinks s s' xs \<Longrightarrow> timed_out t n s'"
  unfolding timed_out_def shrinks_def resolvers_def by (simp add: image_iff) blast

lemma canUseTool_keys:
  "fst ` set (pending (canUseTool sid ws tn t s)) = insert t (fst ` set (pending s))"
  by (simp add: canUseTool_fields dom_update)

lemma dead_canUseTool:
  assumes "dead n s"
  shows "dead n (canUseTool sid ws tn t s) \<and> settlements n (canUseTool sid ws tn t s) = settlements n s"
proof -
  from assms have n: "n \<notin> fst ` set (timers s)" "n \<notin> fst ` set (listeners s)"
    "n \<notin> resolvers s" "n < requests s"
    by (simp_all add: dead_def)
  have "n \<notin> resolvers (canUseTool sid ws tn t s)"
  proof
    assume "n \<in> resolvers (canUseTool sid ws tn t s)"
    then obtain kp where kp: "kp \<in> set (pending (canUseTool sid ws tn t s))" "resolver (snd kp) = n"
      unfolding resolvers_def by blast
    from canUseTool_pending_cases [OF kp(1)] kp(2) n(3,4) show False
      unfolding resolvers_def by force
  qed
  with n show ?thesis
    by (auto simp: dead_def canUseTool_fields settlements_def)
qed

lemma timed_out_canUseTool:
  assumes "timed_out t n s" and "t' \<noteq> t"
  shows "timed_out t n (canUseTool sid ws tn t' s)
         \<and> settlements n (canUseTool sid ws tn t' s) = settlements n s"
proof -
  from assms have n: "n \<notin> fst ` set (timers s)" "n \<notin> resolvers s"
    "\<forall>q \<in> set (listeners s). fst q = n \<longrightarrow> snd q = t"
    "t \<notin> fst ` set (pending s)" "n < requests s"
    by (simp_all add: timed_out_def)
  have "n \<notin> resolvers (canUseTool sid ws tn t' s)"
  proof
    assume "n \<in> resolvers (canUseTool sid ws tn t' s)"
    then obtain kp where kp: "kp \<in> set (pending (canUseTool sid ws tn t' s))" "resolver (snd kp) = n"
      unfolding resolvers_def by blast
    from canUseTool_pending_cases [OF kp(1)] kp(2) n(2,5) show False
      unfolding resolvers_def by force
  qed
  moreover have "t \<notin> fst ` set (pending (canUseTool sid ws tn t' s))"
    using n(4) assms(2) by (simp add: canUseTool_keys)
  ultimately show ?thesis using n
    by (auto simp: timed_out_def canUseTool_fields settlements_def)
qed

lemma dead_step:
  assumes "dead n s"
  shows "dead n (perm_step s ev) \<and> settlements n (perm_step s ev) = settlements n s"
proof (cases "\<exists>sid ws tn t. ev = CanUseTool sid ws tn t")
  case True
  then show ?thesis using dead_canUseTool [OF assms] by auto
next
  case False
  then have "\<And>sid ws tn t. ev \<noteq> CanUseTool sid ws tn t" by blast
  from step_shrinks [OF this, of s]
  obtain xs where xs: "shrinks s (perm_step s ev) xs" "\<forall>x \<in> set xs. can_settle s (fst x)"
    by blast
  from xs(2) dead_not_can_settle [OF assms] have "n \<notin> fst ` set xs" by auto
  moreover from xs(1) have "settled (perm_step s ev) = settled s @ xs" by (simp add: shrinks_def)
  ultimately have "settlements n (perm_step s ev) = settlements n s"
    by (rule settlements_append [rotated])
  with dead_shrinks [OF assms xs(1)] show ?thesis by simp
qed

lemma timed_out_step:
  assumes "timed_out t n s" and "\<not> requests_tool t ev"
  shows "timed_out t n (perm_step s ev) \<and> settlements n (perm_step s ev) = settlements n s"
proof (cases "\<exists>sid ws tn t'. ev = CanUseTool sid ws tn t'")
  case True
  then obtain sid ws tn t' where ev: "ev = CanUseTool sid ws tn t'" by blast
  with assms(2) have "t' \<noteq> t" by simp
  from timed_out_canUseTool [OF assms(1) this] ev show ?thesis by simp
next
  case False
  then have "\<And>sid ws tn t. ev \<noteq> CanUseTool sid ws tn t" by blast
  from step_shrinks [OF this, of s]
  obtain xs where xs: "shrinks s (perm_step s ev) xs" "\<forall>x \<in> set xs. can_settle s (fst x)"
    by blast
  from xs(2) timed_out_not_can_settle [OF assms(1)] have "n \<notin> fst ` set xs" by auto
  moreover from xs(1) have "settled (perm_step s ev) = settled s @ xs" by (simp add: shrinks_def)
  ultimately have "settlements n (perm_step s ev) = settlements n s"
    by (rule settlements_append [rotated])
  with timed_out_shrinks [OF assms(1) xs(1)] show ?thesis by simp
qed

lemma dead_run:
  "dead n s \<Longrightarrow> dead n (run_perm evs s) \<and> settlements n (run_perm evs s) = settlements n s"
proof (induction evs arbitrary: s)
  case Nil
  then show ?case by (simp add: run_perm_def)
next
  case (Cons ev evs)
  from dead_step [OF Cons.prems, of ev] Cons.IH [of "perm_step s ev"]
  show ?case by (simp add: run_perm_def)
qed

lemma timed_out_run:
  "timed_out t n s \<Longrightarrow> \<forall>ev \<in> set evs. \<not> requests_tool t ev \<Longrightarrow>
   timed_out t n (run_perm evs s) \<and> settlements n (run_perm evs s) = settlements n s"
proof (induction evs arbitrary: s)
  case Nil
  then show ?case by (simp add: run_perm_def)
next
  case (Cons ev evs)
  from Cons.prems have a: "\<not> requests_tool t ev" and b: "\<forall>ev \<in> set evs. \<not> requests_tool t ev"
    by simp_all
  from timed_out_step [OF Cons.prems(1) a] Cons.IH [of "perm_step s ev", OF _ b]
  show ?case by (simp add: run_perm_def)
qed

lemma armed_new: "armed (newPermissionHandler ms)"
  by (simp add: armed_def newPermissionHandler_def)

lemma armed_map_of:
  assumes "armed s" and "map_of (pending s) t = Some p"
  shows "map_of (timers s) (resolver p) = Some (timeoutMs s, t)"
proof -
  from assms(2) have "(t, p) \<in> set (pending s)" by (rule map_of_SomeD)
  with assms(1) have "(resolver p, timeoutMs s, t) \<in> set (timers s)"
    unfolding armed_def by force
  moreover from assms(1) have "distinct (map fst (timers s))" by (simp add: armed_def)
  ultimately show ?thesis by simp
qed

lemma armed_canUseTool:
  assumes inv: "perm_inv s" and a: "armed s"
  shows "armed (canUseTool sid ws tn t s)"
  unfolding armed_def
proof (intro conjI ballI)
  have "requests s \<notin> fst ` set (timers s)"
    using perm_invD(1) [OF inv] by force
  with a show "distinct (map fst (timers (canUseTool sid ws tn t s)))"
    by (simp add: armed_def canUseTool_fields)
next
  fix kp assume kp: "kp \<in> set (pending (canUseTool sid ws tn t s))"
  from kp set_alist_update [of t _ "pending s"]
  have "kp = (t, \<lparr>toolUseId = t, sessionId = sid, workspaceId = ws,
           resolver = requests s, timeoutId = requests s\<rparr>) \<or> kp \<in> set (pending s)"
    unfolding canUseTool_fields by blast
  then show "(resolver (snd kp), timeoutMs (canUseTool sid ws tn t s), fst kp)
              \<in> set (timers (canUseTool sid ws tn t s))"
  proof
    assume "kp = (t, \<lparr>toolUseId = t, sessionId = sid, workspaceId = ws,
           resolver = requests s, timeoutId = requests s\<rparr>)"
    then show ?thesis by (simp add: canUseTool_fields canUseTool_def)
  next
    assume "kp \<in> set (pending s)"
    with a have "(resolver (snd kp), timeoutMs s, fst kp) \<in> set (timers s)"
      by (simp add: armed_def)
    then show ?thesis by (simp add: canUseTool_fields canUseTool_def)
  qed
qed

lemma armed_remove:
  assumes inv: "perm_inv s" and a: "armed s"
    and tm: "timers s' = filter (\<lambda>p. fst p \<noteq> i) (timers s)"
    and pd: "set (pending s') \<subseteq> set (pending s)"
    and ms: "timeoutMs s' = timeoutMs s"
    and gone: "\<And>kp. kp \<in> set (pending s') \<Longrightarrow> resolver (snd kp) \<noteq> i"
  shows "armed s'"
  unfolding armed_def
proof (intro conjI ballI)
  from a show "distinct (map fst (timers s'))"
    by (simp add: armed_def tm distinct_map_filter)
next
  fix kp assume kp: "kp \<in> set (pending s')"
  with pd a have "(resolver (snd kp), timeoutMs s, fst kp) \<in> set (timers s)"
    unfolding armed_def by blast
  with gone [OF kp] show "(resolver (snd kp), timeoutMs s', fst kp) \<in> set (timers s')"
    by (simp add: tm ms)
qed

lemma armed_same_timers:
  assumes a: "armed s"
    and tm: "timers s' = timers s"
    and pd: "set (pending s') \<subseteq> set (pending s)"
    and ms: "timeoutMs s' = timeoutMs s"
  shows "armed s'"
  using assms unfolding armed_def by auto

lemma armed_timerFire:
  assumes inv: "perm_inv s" and a: "armed s"
  shows "armed (timerFire i s)"
proof -
  note D = perm_invD [OF inv]
  from timerFire_cases [of i s] show ?thesis
  proof (elim disjE exE conjE)
    assume "timerFire i s = s"
    with a show ?thesis by simp
  next
    fix ms t
    assume tm: "map_of (timers s) i = Some (ms, t)" and none: "map_of (pending s) t = None"
      and eq: "timerFire i s = clearTimeout i s"
    from tm have mem: "(i, ms, t) \<in> set (timers s)" by (rule map_of_SomeD)
    show ?thesis
    proof (rule armed_remove [OF inv a, where i = i])
      fix kp assume kp: "kp \<in> set (pending (timerFire i s))"
      then have kp0: "kp \<in> set (pending s)" by (simp add: eq perm_defs)
      show "resolver (snd kp) \<noteq> i"
      proof
        assume "resolver (snd kp) = i"
        with D(9) [of kp "(i, ms, t)"] kp0 mem have "fst kp = t" by simp
        with kp0 have "t \<in> fst ` set (pending s)" by force
        with none show False by (simp add: map_of_eq_None_iff)
      qed
    qed (simp_all add: eq perm_defs)
  next
    fix ms t p
    assume tm: "map_of (timers s) i = Some (ms, t)"
      and eq: "timerFire i s = settle i (Resolved (Deny ''Permission request timed out'' t))
                 ((clearTimeout i s)\<lparr>pending := AList.delete t (pending s)\<rparr>)"
    from tm have mem: "(i, ms, t) \<in> set (timers s)" by (rule map_of_SomeD)
    show ?thesis
    proof (rule armed_remove [OF inv a, where i = i])
      fix kp assume kp: "kp \<in> set (pending (timerFire i s))"
      then have kp0: "kp \<in> set (pending s)" "fst kp \<noteq> t"
        by (simp_all add: eq perm_defs set_alist_delete)
      with D(9) [of kp "(i, ms, t)"] mem show "resolver (snd kp) \<noteq> i" by auto
    qed (auto simp: eq perm_defs set_alist_delete)
  qed
qed

lemma armed_delete_entry:
  assumes inv: "perm_inv s" and a: "armed s"
    and mem: "kp \<in> set (pending s) \<or> (resolver (snd kp) \<notin> resolvers s
              \<and> timeoutId (snd kp) = resolver (snd kp))"
    and tm: "timers s' = filter (\<lambda>p. fst p \<noteq> timeoutId (snd kp)) (timers s)"
    and pd: "pending s' = AList.delete (fst kp) (pending s)"
    and ms: "timeoutMs s' = timeoutMs s"
  shows "armed s'"
proof (rule armed_remove [OF inv a tm _ ms])
  show "set (pending s') \<subseteq> set (pending s)" by (auto simp: pd set_alist_delete)
next
  note D = perm_invD [OF inv]
  fix q assume q: "q \<in> set (pending s')"
  then have q0: "q \<in> set (pending s)" "fst q \<noteq> fst kp" by (simp_all add: pd set_alist_delete)
  from mem show "resolver (snd q) \<noteq> timeoutId (snd kp)"
  proof
    assume m: "kp \<in> set (pending s)"
    then have "timeoutId (snd kp) = resolver (snd kp)" by (rule D(5))
    with D(7) [of q kp] q0 m show ?thesis by auto
  next
    assume "resolver (snd kp) \<notin> resolvers s \<and> timeoutId (snd kp) = resolver (snd kp)"
    then have "resolver (snd kp) \<notin> resolvers s" and e: "timeoutId (snd kp) = resolver (snd kp)"
      by simp_all
    with q0(1) have "resolver (snd q) \<noteq> resolver (snd kp)"
      unfolding resolvers_def by (metis imageI)
    with e show ?thesis by simp
  qed
qed

lemma armed_abort:
  assumes inv: "perm_inv s" and a: "armed s"
  shows "armed (abort i s)"
proof -
  from abort_cases [of i s] show ?thesis
  proof (elim disjE exE conjE)
    assume "abort i s = s"
    with a show ?thesis by simp
  next
    fix t assume "abort i s = removeListener i s"
    then show ?thesis using armed_same_timers [OF a, of "abort i s"] by (simp add: perm_defs)
  next
    fix t p
    assume pd: "map_of (pending s) t = Some p"
      and eq: "abort i s = settle i (Rejected ''Permission request aborted'')
                 ((clearTimeout (timeoutId p) (removeListener i s))
                    \<lparr>pending := AList.delete t (pending s)\<rparr>)"
    from pd have "(t, p) \<in> set (pending s)" by (rule map_of_SomeD)
    then show ?thesis
      by (intro armed_delete_entry [OF inv a, where kp = "(t, p)"]) (simp_all add: eq perm_defs)
  qed
qed

lemma armed_respond:
  assumes inv: "perm_inv s" and a: "armed s"
  shows "armed (snd (respond t d m u s))"
proof (cases "map_of (pending s) t")
  case None
  with a show ?thesis by (simp add: respond_None)
next
  case (Some p)
  then have "(t, p) \<in> set (pending s)" by (rule map_of_SomeD)
  then show ?thesis
    by (intro armed_delete_entry [OF inv a, where kp = "(t, p)"])
       (simp_all add: respond_Some [OF Some] perm_defs)
qed

lemma armed_cancel_fold:
  assumes inv: "perm_inv s" and a: "armed s"
  shows "armed (foldl (\<lambda>s kp. if c kp then cancelEntry msg s kp else s) s (pending s))"
proof -
  note D = perm_invD [OF inv]
  have "cancel_inv (pending s) (foldl (\<lambda>s kp. if c kp then cancelEntry msg s kp else s) s (pending s))
        \<and> armed (foldl (\<lambda>s kp. if c kp then cancelEntry msg s kp else s) s (pending s))"
  proof (rule foldl_preserves [where P = "\<lambda>s'. cancel_inv (pending s) s' \<and> armed s'"])
    show "cancel_inv (pending s) s \<and> armed s" using cancel_inv_start [OF inv] a by simp
  next
    fix s' kp
    assume kp: "kp \<in> set (pending s)" and P: "cancel_inv (pending s) s' \<and> armed s'"
    then have ci: "cancel_inv (pending s) s'" and a': "armed s'" by simp_all
    from ci have inv': "perm_inv s'" by (simp add: cancel_inv_def)
    from ci kp have pres: "kp \<in> set (pending s') \<or> resolver (snd kp) \<notin> resolvers s'"
      by (auto simp: cancel_inv_def)
    from kp have tid: "timeoutId (snd kp) = resolver (snd kp)" by (rule D(5))
    have "armed (cancelEntry msg s' kp)"
      by (rule armed_delete_entry [OF inv' a', where kp = kp])
         (use pres tid in \<open>auto simp: cancelEntry_fields cancelEntry_def perm_defs\<close>)
    with cancel_inv_step [OF ci kp, of msg] P
    show "cancel_inv (pending s) (if c kp then cancelEntry msg s' kp else s')
          \<and> armed (if c kp then cancelEntry msg s' kp else s')"
      by simp
  qed
  then show ?thesis by simp
qed

lemma armed_step: "perm_inv s \<Longrightarrow> armed s \<Longrightarrow> armed (perm_step s ev)"
proof (cases ev)
  case (CancelForSession sid)
  assume "perm_inv s" "armed s"
  then show ?thesis
    using armed_cancel_fold [of s "\<lambda>kp. PendingPermission.sessionId (snd kp) = sid" "''Session closed''"] CancelForSession
    by (simp add: cancelForSession_def)
next
  case CancelAll
  assume "perm_inv s" "armed s"
  then show ?thesis
    using armed_cancel_fold [of s "\<lambda>kp. True" "''Bridge shutting down''"] CancelAll
    by (simp add: cancelAll_fold)
qed (simp_all add: armed_canUseTool armed_timerFire armed_abort armed_respond)

lemma timeoutMs_cancel_fold:
  "timeoutMs (foldl (\<lambda>s kp. if c kp then cancelEntry msg s kp else s) s es) = timeoutMs s"
  by (rule foldl_preserves [where P = "\<lambda>s'. timeoutMs s' = timeoutMs s"])
     (simp_all add: cancelEntry_def perm_defs)

lemma timeoutMs_step: "timeoutMs (perm_step s ev) = timeoutMs s"
proof (cases ev)
  case (CanUseTool sid ws tn t)
  then show ?thesis by (simp add: canUseTool_def)
next
  case (TimerFire i)
  then show ?thesis by (auto simp: timerFire_def perm_defs split: option.splits)
next
  case (Abort i)
  then show ?thesis by (auto simp: abort_def perm_defs split: option.splits)
next
  case (Respond t d m u)
  then show ?thesis by (auto simp: respond_def perm_defs split: option.splits)
next
  case (CancelForSession sid)
  then show ?thesis
    using timeoutMs_cancel_fold [of "\<lambda>kp. PendingPermission.sessionId (snd kp) = sid" "''Session closed''" s "pending s"]
    by (simp add: cancelForSession_def)
next
  case CancelAll
  then show ?thesis
    using timeoutMs_cancel_fold [of "\<lambda>kp. True" "''Bridge shutting down''" s "pending s"]
    by (simp add: cancelAll_fold)
qed

lemma reachable_inv:
  "perm_inv (run_perm evs (newPermissionHandler ms)) \<and> armed (run_perm evs (newPermissionHandler ms))
   \<and> timeoutMs (run_perm evs (newPermissionHandler ms)) = ms"
proof (induction evs rule: rev_induct)
  case Nil
  show ?case by (simp add: run_perm_def perm_inv_new armed_new) (simp add: newPermissionHandler_def)
next
  case (snoc ev evs)
  then show ?case
    by (simp add: run_perm_def perm_inv_step armed_step timeoutMs_step)
qed

lemma map_of_delete_same: "map_of (AList.delete k al) k = None"
  by (simp add: delete_conv')

lemma unsettled_pending:
  assumes inv: "perm_inv s" and mem: "(t, p) \<in> set (pending s)"
  shows "settlements (resolver p) s = []"
proof -
  have "filter (\<lambda>q. fst q = resolver p) (settled s) = []"
    using perm_invD(6) [OF inv mem] by (auto simp: filter_empty_conv)
  then show ?thesis by (simp add: settlements_def)
qed

lemma respond_pending_facts:
  assumes inv: "perm_inv s" and pd: "map_of (pending s) t = Some p"
  shows "fst (respond t d m u s) = True"
    and "map_of (pending (snd (respond t d m u s))) t = None"
    and "timeoutId p \<notin> fst ` set (timers (snd (respond t d m u s)))"
    and "settled (snd (respond t d m u s)) = settled s @
          [(resolver p, Resolved
               (if d = ''allow'' then Allow u t
                else Deny (case m of None \<Rightarrow> ''Permission denied by user'' | Some x \<Rightarrow> x) t))]"
    and "settlements (resolver p) s = []"
    and "dead (resolver p) (snd (respond t d m u s))"
proof -
  note D = perm_invD [OF inv]
  note R = respond_Some [OF pd, of d m u]
  from pd have mem: "(t, p) \<in> set (pending s)" by (rule map_of_SomeD)
  show "fst (respond t d m u s) = True" by (simp add: R)
  show "map_of (pending (snd (respond t d m u s))) t = None"
    by (simp add: R perm_defs map_of_delete_same)
  show "timeoutId p \<notin> fst ` set (timers (snd (respond t d m u s)))"
    by (auto simp: R perm_defs)
  show "settled (snd (respond t d m u s)) = settled s @
          [(resolver p, Resolved
               (if d = ''allow'' then Allow u t
                else Deny (case m of None \<Rightarrow> ''Permission denied by user'' | Some x \<Rightarrow> x) t))]"
    by (simp add: R perm_defs)
  show "settlements (resolver p) s = []" by (rule unsettled_pending [OF inv mem])
  have tid: "timeoutId p = resolver p" using D(5) [OF mem] by simp
  have "resolver p \<notin> resolvers (snd (respond t d m u s))"
  proof
    assume "resolver p \<in> resolvers (snd (respond t d m u s))"
    then obtain kp where kp: "kp \<in> set (pending s)" "fst kp \<noteq> t" "resolver (snd kp) = resolver p"
      by (auto simp: R resolvers_def perm_defs set_alist_delete)
    with D(7) [of kp "(t, p)"] mem show False by simp
  qed
  moreover have "resolver p < requests s" using D(4) [OF mem] by simp
  ultimately show "dead (resolver p) (snd (respond t d m u s))"
    by (auto simp: dead_def R perm_defs tid)
qed

lemma timerFire_pending_facts:
  assumes inv: "perm_inv s" and a: "armed s" and pd: "map_of (pending s) t = Some p"
  shows "map_of (timers s) (resolver p) = Some (timeoutMs s, t)"
    and "settled (timerFire (resolver p) s) = settled s @
          [(resolver p, Resolved (Deny ''Permission request timed out'' t))]"
    and "map_of (pending (timerFire (resolver p) s)) t = None"
    and "settlements (resolver p) s = []"
    and "timed_out t (resolver p) (timerFire (resolver p) s)"
proof -
  note D = perm_invD [OF inv]
  from pd have mem: "(t, p) \<in> set (pending s)" by (rule map_of_SomeD)
  show tm: "map_of (timers s) (resolver p) = Some (timeoutMs s, t)"
    by (rule armed_map_of [OF a pd])
  then have tmem: "(resolver p, timeoutMs s, t) \<in> set (timers s)" by (rule map_of_SomeD)
  have F: "timerFire (resolver p) s
      = settle (resolver p) (Resolved (Deny ''Permission request timed out'' t))
          ((clearTimeout (resolver p) s)\<lparr>pending := AList.delete t (pending s)\<rparr>)"
    by (simp add: timerFire_def tm pd)
  show "settled (timerFire (resolver p) s) = settled s @
          [(resolver p, Resolved (Deny ''Permission request timed out'' t))]"
    by (simp add: F perm_defs)
  show "map_of (pending (timerFire (resolver p) s)) t = None"
    by (simp add: F perm_defs map_of_delete_same)
  show "settlements (resolver p) s = []" by (rule unsettled_pending [OF inv mem])
  have "resolver p \<notin> resolvers (timerFire (resolver p) s)"
  proof
    assume "resolver p \<in> resolvers (timerFire (resolver p) s)"
    then obtain kp where kp: "kp \<in> set (pending s)" "fst kp \<noteq> t" "resolver (snd kp) = resolver p"
      by (auto simp: F resolvers_def perm_defs set_alist_delete)
    with D(7) [of kp "(t, p)"] mem show False by simp
  qed
  moreover have "\<forall>q \<in> set (listeners (timerFire (resolver p) s)). fst q = resolver p \<longrightarrow> snd q = t"
  proof (intro ballI impI)
    fix q assume "q \<in> set (listeners (timerFire (resolver p) s))" and e: "fst q = resolver p"
    then have "q \<in> set (listeners s)" by (simp add: F perm_defs)
    with D(8) [of "(resolver p, timeoutMs s, t)" q] tmem e show "snd q = t" by simp
  qed
  moreover have "t \<notin> fst ` set (pending (timerFire (resolver p) s))"
    by (auto simp: F perm_defs set_alist_delete)
  moreover have "resolver p < requests s" using D(4) [OF mem] by simp
  ultimately show "timed_out t (resolver p) (timerFire (resolver p) s)"
    unfolding timed_out_def by (auto simp: F perm_defs)
qed

text \<open>
  Claim C6: \<^verbatim>\<open>respond\<close> for a tool-use id with no pending entry returns \<^verbatim>\<open>false\<close> and
  changes nothing (the function is total: it does not throw); for a pending entry it
  returns \<^verbatim>\<open>true\<close>, removes the entry, clears its timer and resolves the promise of the
  entry with the allow result (updated permissions and the id) or the deny result (the
  message given, or \<open>Permission denied by user\<close>, and the id).  Exactly once: in every
  state the handler can reach, the promise of a pending entry has not been settled
  before, and after the response no later event, whatever it is, settles it again.
\<close>

theorem respond_settles_once:
  "(map_of (pending (run_perm evs (newPermissionHandler ms))) t = None \<longrightarrow>
      respond t d m u (run_perm evs (newPermissionHandler ms))
        = (False, run_perm evs (newPermissionHandler ms)))
   \<and> (\<forall>p. map_of (pending (run_perm evs (newPermissionHandler ms))) t = Some p \<longrightarrow>
        fst (respond t d m u (run_perm evs (newPermissionHandler ms))) = True
        \<and> map_of (pending (snd (respond t d m u (run_perm evs (newPermissionHandler ms))))) t = None
        \<and> timeoutId p \<notin> fst ` set (timers (snd (respond t d m u (run_perm evs (newPermissionHandler ms)))))
        \<and> settled (snd (respond t d m u (run_perm evs (newPermissionHandler ms))))
            = settled (run_perm evs (newPermissionHandler ms)) @
                [(resolver p, Resolved
                   (if d = ''allow'' then Allow u t
                    else Deny (case m of None \<Rightarrow> ''Permission denied by user'' | Some x \<Rightarrow> x) t))]
        \<and> settlements (resolver p) (run_perm evs (newPermissionHandler ms)) = []
        \<and> (\<forall>later. settlements (resolver p)
                      (run_perm later (snd (respond t d m u (run_perm evs (newPermissionHandler ms)))))
              = [Resolved
                   (if d = ''allow'' then Allow u t
                    else Deny (case m of None \<Rightarrow> ''Permission denied by user'' | Some x \<Rightarrow> x) t)]))"
proof (intro conjI allI impI)
  let ?S = "run_perm evs (newPermissionHandler ms)"
  assume "map_of (pending ?S) t = None"
  then show "respond t d m u ?S = (False, ?S)" by (rule respond_None)
next
  let ?S = "run_perm evs (newPermissionHandler ms)"
  fix p assume pd: "map_of (pending ?S) t = Some p"
  have inv: "perm_inv ?S" using reachable_inv [of evs ms] by simp
  note F = respond_pending_facts [OF inv pd]
  show "fst (respond t d m u ?S) = True" by (rule F(1))
  show "map_of (pending (snd (respond t d m u ?S))) t = None" by (rule F(2))
  show "timeoutId p \<notin> fst ` set (timers (snd (respond t d m u ?S)))" by (rule F(3))
  show "settled (snd (respond t d m u ?S)) = settled ?S @
                [(resolver p, Resolved
                   (if d = ''allow'' then Allow u t
                    else Deny (case m of None \<Rightarrow> ''Permission denied by user'' | Some x \<Rightarrow> x) t))]"
    by (rule F(4))
  show "settlements (resolver p) ?S = []" by (rule F(5))
  fix later
  from dead_run [OF F(6) [of d m u], of later]
  have "settlements (resolver p) (run_perm later (snd (respond t d m u ?S)))
          = settlements (resolver p) (snd (respond t d m u ?S))" by simp
  also have "\<dots> = [Resolved
                   (if d = ''allow'' then Allow u t
                    else Deny (case m of None \<Rightarrow> ''Permission denied by user'' | Some x \<Rightarrow> x) t)]"
    using F(5) by (simp add: settlements_def F(4))
  finally show "settlements (resolver p) (run_perm later (snd (respond t d m u ?S)))
              = [Resolved
                   (if d = ''allow'' then Allow u t
                    else Deny (case m of None \<Rightarrow> ''Permission denied by user'' | Some x \<Rightarrow> x) t)]" .
qed

text \<open>
  Claim C5: in every state the handler can reach, an entry that is still pending (so it
  was not responded to, aborted or cancelled) has its timer armed with the configured
  delay and its promise unsettled; when the timer fires, the promise is resolved with a
  deny whose message is \<open>Permission request timed out\<close>, and the entry is removed.
  Exactly once: afterwards no event settles the promise again, as long as the tool-use
  id is not registered a second time (tool-use ids are unique).
\<close>

theorem timeout_denies_once:
  "\<forall>p. map_of (pending (run_perm evs (newPermissionHandler ms))) t = Some p \<longrightarrow>
      map_of (timers (run_perm evs (newPermissionHandler ms))) (resolver p) = Some (ms, t)
      \<and> settlements (resolver p) (run_perm evs (newPermissionHandler ms)) = []
      \<and> settled (timerFire (resolver p) (run_perm evs (newPermissionHandler ms)))
          = settled (run_perm evs (newPermissionHandler ms)) @
              [(resolver p, Resolved (Deny ''Permission request timed out'' t))]
      \<and> map_of (pending (timerFire (resolver p) (run_perm evs (newPermissionHandler ms)))) t = None
      \<and> (\<forall>later. (\<forall>ev \<in> set later. \<not> requests_tool t ev) \<longrightarrow>
            settlements (resolver p)
              (run_perm later (timerFire (resolver p) (run_perm evs (newPermissionHandler ms))))
            = [Resolved (Deny ''Permission request timed out'' t)])"
proof (intro conjI allI impI)
  let ?S = "run_perm evs (newPermissionHandler ms)"
  fix p assume pd: "map_of (pending ?S) t = Some p"
  have inv: "perm_inv ?S" and a: "armed ?S" and tms: "timeoutMs ?S = ms"
    using reachable_inv [of evs ms] by simp_all
  note F = timerFire_pending_facts [OF inv a pd]
  show "map_of (timers ?S) (resolver p) = Some (ms, t)" using F(1) tms by simp
  show "settlements (resolver p) ?S = []" by (rule F(4))
  show "settled (timerFire (resolver p) ?S) = settled ?S @
              [(resolver p, Resolved (Deny ''Permission request timed out'' t))]" by (rule F(2))
  show "map_of (pending (timerFire (resolver p) ?S)) t = None" by (rule F(3))
  fix later assume "\<forall>ev \<in> set later. \<not> requests_tool t ev"
  from timed_out_run [OF F(5) this]
  have "settlements (resolver p) (run_perm later (timerFire (resolver p) ?S))
          = settlements (resolver p) (timerFire (resolver p) ?S)" by simp
  also have "\<dots> = [Resolved (Deny ''Permission request timed out'' t)]"
    using F(4) by (simp add: settlements_def F(2))
  finally show "settlements (resolver p) (run_perm later (timerFire (resolver p) ?S))
            = [Resolved (Deny ''Permission request timed out'' t)]" .
qed

text \<open>
  Claim C9: \<^verbatim>\<open>permission/respond\<close> resolves a pending permission by its tool-use id
  alone.  For every session id in the command the handler does what \<^verbatim>\<open>respond\<close> does
  with the other parameters, so the result and the new state do not depend on the
  session id.  In every state the handler can reach, for a tool-use id that is pending
  (whatever session its entry belongs to) and for every session id in the command: the
  command is answered \<^verbatim>\<open>{success: true}\<close>, the entry is removed, its timer is cleared, and
  the promise of the entry, unsettled until then, is resolved with the decision of the
  command and is not settled again by any later event.
\<close>

theorem respond_ignores_session:
  "handlePermissionRespond (params\<lparr>prSessionId := a\<rparr>) s
     = handlePermissionRespond (params\<lparr>prSessionId := b\<rparr>) s
   \<and> handlePermissionRespond (params\<lparr>prSessionId := a\<rparr>) s
     = respond (prToolUseId params) (prDecision params) (prMessage params)
         (prUpdatedPermissions params) s
   \<and> (\<forall>p. map_of (pending (run_perm evs (newPermissionHandler ms))) (prToolUseId params) = Some p
      \<longrightarrow>
        (\<forall>env cid bridge.
            permissionHandler bridge = run_perm evs (newPermissionHandler ms) \<longrightarrow>
            serve env cid (PermissionRespond (params\<lparr>prSessionId := a\<rparr>)) bridge
              = (ResultResponse cid (Success True),
                 bridge\<lparr>permissionHandler :=
                   snd (handlePermissionRespond (params\<lparr>prSessionId := a\<rparr>)
                          (run_perm evs (newPermissionHandler ms)))\<rparr>))
        \<and> fst (handlePermissionRespond (params\<lparr>prSessionId := a\<rparr>)
                 (run_perm evs (newPermissionHandler ms))) = True
        \<and> map_of (pending (snd (handlePermissionRespond (params\<lparr>prSessionId := a\<rparr>)
                 (run_perm evs (newPermissionHandler ms))))) (prToolUseId params) = None
        \<and> timeoutId p \<notin> fst ` set (timers (snd (handlePermissionRespond
                 (params\<lparr>prSessionId := a\<rparr>) (run_perm evs (newPermissionHandler ms)))))
        \<and> settlements (resolver p) (run_perm evs (newPermissionHandler ms)) = []
        \<and> settled (snd (handlePermissionRespond (params\<lparr>prSessionId := a\<rparr>)
                 (run_perm evs (newPermissionHandler ms))))
            = settled (run_perm evs (newPermissionHandler ms)) @
                [(resolver p, Resolved
                   (if prDecision params = ''allow''
                    then Allow (prUpdatedPermissions params) (prToolUseId params)
                    else Deny (case prMessage params of None \<Rightarrow> ''Permission denied by user''
                               | Some x \<Rightarrow> x) (prToolUseId params)))]
        \<and> (\<forall>later. settlements (resolver p)
              (run_perm later (snd (handlePermissionRespond (params\<lparr>prSessionId := a\<rparr>)
                 (run_perm evs (newPermissionHandler ms)))))
              = [Resolved
                   (if prDecision params = ''allow''
                    then Allow (prUpdatedPermissions params) (prToolUseId params)
                    else Deny (case prMessage params of None \<Rightarrow> ''Permission denied by user''
                               | Some x \<Rightarrow> x) (prToolUseId params))]))"
proof (intro conjI allI impI)
  show "handlePermissionRespond (params\<lparr>prSessionId := a\<rparr>) s
     = handlePermissionRespond (params\<lparr>prSessionId := b\<rparr>) s"
    by (simp add: handlePermissionRespond_def)
  show "handlePermissionRespond (params\<lparr>prSessionId := a\<rparr>) s
     = respond (prToolUseId params) (prDecision params) (prMessage params)
         (prUpdatedPermissions params) s"
    by (simp add: handlePermissionRespond_def)
next
  let ?S = "run_perm evs (newPermissionHandler ms)"
  let ?t = "prToolUseId params" and ?d = "prDecision params"
  let ?m = "prMessage params" and ?u = "prUpdatedPermissions params"
  fix p assume pd: "map_of (pending ?S) ?t = Some p"
  have H: "handlePermissionRespond (params\<lparr>prSessionId := a\<rparr>) ?S = respond ?t ?d ?m ?u ?S"
    by (simp add: handlePermissionRespond_def)
  have inv: "perm_inv ?S" using reachable_inv [of evs ms] by simp
  note F = respond_pending_facts [OF inv pd]
  show "fst (handlePermissionRespond (params\<lparr>prSessionId := a\<rparr>) ?S) = True"
    unfolding H by (rule F(1))
  show "map_of (pending (snd (handlePermissionRespond (params\<lparr>prSessionId := a\<rparr>) ?S))) ?t = None"
    unfolding H by (rule F(2))
  show "timeoutId p \<notin> fst ` set (timers (snd (handlePermissionRespond
                 (params\<lparr>prSessionId := a\<rparr>) ?S)))"
    unfolding H by (rule F(3))
  show "settlements (resolver p) ?S = []" by (rule F(5))
  show "settled (snd (handlePermissionRespond (params\<lparr>prSessionId := a\<rparr>) ?S))
            = settled ?S @
                [(resolver p, Resolved
                   (if ?d = ''allow'' then Allow ?u ?t
                    else Deny (case ?m of None \<Rightarrow> ''Permission denied by user''
                               | Some x \<Rightarrow> x) ?t))]"
    unfolding H by (rule F(4))
  {
    fix later
    from dead_run [OF F(6) [of ?d ?m ?u], of later]
    have "settlements (resolver p) (run_perm later (snd (respond ?t ?d ?m ?u ?S)))
            = settlements (resolver p) (snd (respond ?t ?d ?m ?u ?S))" by simp
    also have "\<dots> = [Resolved
                   (if ?d = ''allow'' then Allow ?u ?t
                    else Deny (case ?m of None \<Rightarrow> ''Permission denied by user''
                               | Some x \<Rightarrow> x) ?t)]"
      using F(5) by (simp add: settlements_def F(4))
    finally show "settlements (resolver p)
              (run_perm later (snd (handlePermissionRespond (params\<lparr>prSessionId := a\<rparr>) ?S)))
              = [Resolved
                   (if ?d = ''allow'' then Allow ?u ?t
                    else Deny (case ?m of None \<Rightarrow> ''Permission denied by user''
                               | Some x \<Rightarrow> x) ?t)]"
      unfolding H .
  }
  fix env :: Env and cid :: nat and bridge :: Bridge
  assume ph: "permissionHandler bridge = ?S"
  have "fst (respond ?t ?d ?m ?u ?S) = True" by (rule F(1))
  then show "serve env cid (PermissionRespond (params\<lparr>prSessionId := a\<rparr>)) bridge
              = (ResultResponse cid (Success True),
                 bridge\<lparr>permissionHandler :=
                   snd (handlePermissionRespond (params\<lparr>prSessionId := a\<rparr>) ?S)\<rparr>)"
    by (auto simp: serve_def ph H split: prod.splits)
qed

lemma one_request_pending:
  "pending (run_perm [CanUseTool ''S1'' ''w1'' ''bash'' ''T1''] (newPermissionHandler 300000))
     = [(''T1'', \<lparr>toolUseId = ''T1'', sessionId = ''S1'', workspaceId = ''w1'',
                 resolver = 0, timeoutId = 0\<rparr>)]"
  by (simp add: run_perm_def canUseTool_def newPermissionHandler_def)

theorem respond_settles_once_witness:
  "fst (respond ''T1'' ''deny'' (Some ''no'') None
          (run_perm [CanUseTool ''S1'' ''w1'' ''bash'' ''T1''] (newPermissionHandler 300000))) = True
   \<and> settlements 0
        (run_perm [Respond ''T1'' ''allow'' None None, TimerFire 0, Abort 0, CancelAll]
           (snd (respond ''T1'' ''deny'' (Some ''no'') None
              (run_perm [CanUseTool ''S1'' ''w1'' ''bash'' ''T1''] (newPermissionHandler 300000)))))
       = [Resolved (Deny ''no'' ''T1'')]"
proof -
  let ?S = "run_perm [CanUseTool ''S1'' ''w1'' ''bash'' ''T1''] (newPermissionHandler 300000)"
  let ?p = "\<lparr>toolUseId = ''T1'', sessionId = ''S1'', workspaceId = ''w1'',
                 resolver = 0, timeoutId = 0\<rparr>"
  have pd: "map_of (pending ?S) ''T1'' = Some ?p"
    by (simp only: one_request_pending) simp
  from respond_settles_once
    [of "[CanUseTool ''S1'' ''w1'' ''bash'' ''T1'']" 300000 "''T1''" "''deny''" "Some ''no''" None]
  have "map_of (pending ?S) ''T1'' = Some ?p \<longrightarrow>
        fst (respond ''T1'' ''deny'' (Some ''no'') None ?S) = True
        \<and> (\<forall>later. settlements (resolver ?p)
              (run_perm later (snd (respond ''T1'' ''deny'' (Some ''no'') None ?S)))
              = [Resolved
                   (if ''deny'' = ''allow'' then Allow None ''T1''
                    else Deny (case Some ''no'' of None \<Rightarrow> ''Permission denied by user''
                                | Some x \<Rightarrow> x) ''T1'')])"
    by blast
  with pd have a: "fst (respond ''T1'' ''deny'' (Some ''no'') None ?S) = True"
    and b: "\<forall>later. settlements (resolver ?p)
              (run_perm later (snd (respond ''T1'' ''deny'' (Some ''no'') None ?S)))
              = [Resolved
                   (if ''deny'' = ''allow'' then Allow None ''T1''
                    else Deny (case Some ''no'' of None \<Rightarrow> ''Permission denied by user''
                                | Some x \<Rightarrow> x) ''T1'')]"
    by blast+
  from b have "settlements (resolver ?p)
        (run_perm [Respond ''T1'' ''allow'' None None, TimerFire 0, Abort 0, CancelAll]
           (snd (respond ''T1'' ''deny'' (Some ''no'') None ?S)))
       = [Resolved
                   (if ''deny'' = ''allow'' then Allow None ''T1''
                    else Deny (case Some ''no'' of None \<Rightarrow> ''Permission denied by user''
                                | Some x \<Rightarrow> x) ''T1'')]"
    by (rule spec)
  then have "settlements 0
        (run_perm [Respond ''T1'' ''allow'' None None, TimerFire 0, Abort 0, CancelAll]
           (snd (respond ''T1'' ''deny'' (Some ''no'') None ?S)))
       = [Resolved (Deny ''no'' ''T1'')]"
    by simp
  with a show ?thesis by simp
qed

theorem timeout_denies_once_witness:
  "map_of (timers (run_perm [CanUseTool ''S1'' ''w1'' ''bash'' ''T1''] (newPermissionHandler 300000))) 0
     = Some (300000, ''T1'')
   \<and> settlements 0
        (run_perm [Abort 0, Respond ''T1'' ''allow'' None None]
           (timerFire 0
              (run_perm [CanUseTool ''S1'' ''w1'' ''bash'' ''T1''] (newPermissionHandler 300000))))
       = [Resolved (Deny ''Permission request timed out'' ''T1'')]"
proof -
  let ?S = "run_perm [CanUseTool ''S1'' ''w1'' ''bash'' ''T1''] (newPermissionHandler 300000)"
  let ?p = "\<lparr>toolUseId = ''T1'', sessionId = ''S1'', workspaceId = ''w1'',
                 resolver = 0, timeoutId = 0\<rparr>"
  have pd: "map_of (pending ?S) ''T1'' = Some ?p"
    by (simp only: one_request_pending) simp
  from timeout_denies_once [of "[CanUseTool ''S1'' ''w1'' ''bash'' ''T1'']" 300000 "''T1''"]
  have "map_of (pending ?S) ''T1'' = Some ?p \<longrightarrow>
      map_of (timers ?S) (resolver ?p) = Some (300000, ''T1'')
      \<and> (\<forall>later. (\<forall>ev \<in> set later. \<not> requests_tool ''T1'' ev) \<longrightarrow>
            settlements (resolver ?p) (run_perm later (timerFire (resolver ?p) ?S))
            = [Resolved (Deny ''Permission request timed out'' ''T1'')])"
    by blast
  with pd have a: "map_of (timers ?S) (resolver ?p) = Some (300000, ''T1'')"
    and b: "\<forall>later. (\<forall>ev \<in> set later. \<not> requests_tool ''T1'' ev) \<longrightarrow>
            settlements (resolver ?p) (run_perm later (timerFire (resolver ?p) ?S))
            = [Resolved (Deny ''Permission request timed out'' ''T1'')]"
    by blast+
  have c: "\<forall>ev \<in> set [Abort 0, Respond ''T1'' ''allow'' None None]. \<not> requests_tool ''T1'' ev"
    by simp
  from b c have "settlements (resolver ?p)
        (run_perm [Abort 0, Respond ''T1'' ''allow'' None None] (timerFire (resolver ?p) ?S))
       = [Resolved (Deny ''Permission request timed out'' ''T1'')]"
    by blast
  with a show ?thesis by simp
qed

theorem respond_ignores_session_witness:
  "serve idle_env 7
     (PermissionRespond \<lparr>prSessionId = ''another-session'', prToolUseId = ''T1'',
        prDecision = ''allow'', prMessage = None, prUpdatedPermissions = None\<rparr>)
     (newBridge\<lparr>permissionHandler :=
        run_perm [CanUseTool ''S1'' ''w1'' ''bash'' ''T1''] (newPermissionHandler 300000)\<rparr>)
   = (ResultResponse 7 (Success True),
      newBridge\<lparr>permissionHandler :=
        snd (handlePermissionRespond
          \<lparr>prSessionId = ''another-session'', prToolUseId = ''T1'',
           prDecision = ''allow'', prMessage = None, prUpdatedPermissions = None\<rparr>
          (run_perm [CanUseTool ''S1'' ''w1'' ''bash'' ''T1''] (newPermissionHandler 300000)))\<rparr>)
   \<and> map_of (pending (snd (handlePermissionRespond
          \<lparr>prSessionId = ''another-session'', prToolUseId = ''T1'',
           prDecision = ''allow'', prMessage = None, prUpdatedPermissions = None\<rparr>
          (run_perm [CanUseTool ''S1'' ''w1'' ''bash'' ''T1''] (newPermissionHandler 300000)))))
        ''T1'' = None
   \<and> settlements 0
        (run_perm [TimerFire 0, Abort 0, CancelForSession ''S1'']
          (snd (handlePermissionRespond
            \<lparr>prSessionId = ''another-session'', prToolUseId = ''T1'',
             prDecision = ''allow'', prMessage = None, prUpdatedPermissions = None\<rparr>
            (run_perm [CanUseTool ''S1'' ''w1'' ''bash'' ''T1''] (newPermissionHandler 300000)))))
       = [Resolved (Allow None ''T1'')]"
proof -
  let ?S = "run_perm [CanUseTool ''S1'' ''w1'' ''bash'' ''T1''] (newPermissionHandler 300000)"
  let ?q = "\<lparr>prSessionId = ''S1'', prToolUseId = ''T1'', prDecision = ''allow'',
           prMessage = None, prUpdatedPermissions = None\<rparr>"
  let ?p = "\<lparr>toolUseId = ''T1'', sessionId = ''S1'', workspaceId = ''w1'',
                 resolver = 0, timeoutId = 0\<rparr>"
  have pd: "map_of (pending ?S) (prToolUseId ?q) = Some ?p"
    by (simp only: one_request_pending) simp
  have ph: "permissionHandler (newBridge\<lparr>permissionHandler := ?S\<rparr>) = ?S" by simp
  from respond_ignores_session
    [where params = ?q and a = "''another-session''" and evs = "[CanUseTool ''S1'' ''w1'' ''bash'' ''T1'']"
       and ms = 300000 and s = ?S and b = "''S1''"]
  have "map_of (pending ?S) (prToolUseId ?q) = Some ?p \<longrightarrow>
        (\<forall>env cid bridge.
            permissionHandler bridge = ?S \<longrightarrow>
            serve env cid (PermissionRespond (?q\<lparr>prSessionId := ''another-session''\<rparr>)) bridge
              = (ResultResponse cid (Success True),
                 bridge\<lparr>permissionHandler :=
                   snd (handlePermissionRespond (?q\<lparr>prSessionId := ''another-session''\<rparr>) ?S)\<rparr>))
        \<and> map_of (pending (snd (handlePermissionRespond
                 (?q\<lparr>prSessionId := ''another-session''\<rparr>) ?S))) (prToolUseId ?q) = None
        \<and> (\<forall>later. settlements (resolver ?p)
              (run_perm later (snd (handlePermissionRespond
                 (?q\<lparr>prSessionId := ''another-session''\<rparr>) ?S)))
              = [Resolved
                   (if prDecision ?q = ''allow''
                    then Allow (prUpdatedPermissions ?q) (prToolUseId ?q)
                    else Deny (case prMessage ?q of None \<Rightarrow> ''Permission denied by user''
                               | Some x \<Rightarrow> x) (prToolUseId ?q))])"
    by blast
  with pd have a: "\<forall>env cid bridge.
            permissionHandler bridge = ?S \<longrightarrow>
            serve env cid (PermissionRespond (?q\<lparr>prSessionId := ''another-session''\<rparr>)) bridge
              = (ResultResponse cid (Success True),
                 bridge\<lparr>permissionHandler :=
                   snd (handlePermissionRespond (?q\<lparr>prSessionId := ''another-session''\<rparr>) ?S)\<rparr>)"
    and b: "map_of (pending (snd (handlePermissionRespond
                 (?q\<lparr>prSessionId := ''another-session''\<rparr>) ?S))) (prToolUseId ?q) = None"
    and c: "\<forall>later. settlements (resolver ?p)
              (run_perm later (snd (handlePermissionRespond
                 (?q\<lparr>prSessionId := ''another-session''\<rparr>) ?S)))
              = [Resolved
                   (if prDecision ?q = ''allow''
                    then Allow (prUpdatedPermissions ?q) (prToolUseId ?q)
                    else Deny (case prMessage ?q of None \<Rightarrow> ''Permission denied by user''
                               | Some x \<Rightarrow> x) (prToolUseId ?q))]"
    by blast+
  from a ph have a': "serve idle_env 7
        (PermissionRespond (?q\<lparr>prSessionId := ''another-session''\<rparr>))
        (newBridge\<lparr>permissionHandler := ?S\<rparr>)
      = (ResultResponse 7 (Success True),
         (newBridge\<lparr>permissionHandler := ?S\<rparr>)\<lparr>permissionHandler :=
            snd (handlePermissionRespond (?q\<lparr>prSessionId := ''another-session''\<rparr>) ?S)\<rparr>)"
    by blast
  from c have c': "settlements (resolver ?p)
        (run_perm [TimerFire 0, Abort 0, CancelForSession ''S1'']
          (snd (handlePermissionRespond (?q\<lparr>prSessionId := ''another-session''\<rparr>) ?S)))
       = [Resolved
                   (if prDecision ?q = ''allow''
                    then Allow (prUpdatedPermissions ?q) (prToolUseId ?q)
                    else Deny (case prMessage ?q of None \<Rightarrow> ''Permission denied by user''
                               | Some x \<Rightarrow> x) (prToolUseId ?q))]"
    by (rule spec)
  from a' b c' show ?thesis by simp
qed

section \<open>Verification: the session manager\<close>





























lemma decimal_digits:
  "decimal 0 = ''0''" "decimal 1 = ''1''" "decimal (Suc 0) = ''1''" "decimal 2 = ''2''"
  by (simp_all add: decimal.simps)

section \<open>One session per workspace\<close>

text \<open>
  Claim C1, as stated: a start for a workspace that has a session in status \<open>Starting\<close> or
  \<open>Active\<close> is rejected, and a workspace never has two such sessions.  It fails: a second
  \<^verbatim>\<open>startSession\<close> for the workspace \<open>w1\<close>, made while the first session is still
  \<open>Starting\<close>, returns a pending id, and the table then holds two sessions of \<open>w1\<close> in status
  \<open>Starting\<close>.
\<close>

theorem startSession_while_starting_counterexample:
  "fst (startSession 2 2 None ''w1'' ''/p''
         (snd (startSession 1 1 None ''w1'' ''/p'' newSessionManager))) = Inr ''pending-2''
   \<and> sessions (snd (startSession 2 2 None ''w1'' ''/p''
         (snd (startSession 1 1 None ''w1'' ''/p'' newSessionManager)))) ''pending-1'' = Some 0
   \<and> sessions (snd (startSession 2 2 None ''w1'' ''/p''
         (snd (startSession 1 1 None ''w1'' ''/p'' newSessionManager)))) ''pending-2'' = Some 1
   \<and> workspaceId (objects (snd (startSession 2 2 None ''w1'' ''/p''
         (snd (startSession 1 1 None ''w1'' ''/p'' newSessionManager)))) ! 0) = ''w1''
   \<and> workspaceId (objects (snd (startSession 2 2 None ''w1'' ''/p''
         (snd (startSession 1 1 None ''w1'' ''/p'' newSessionManager)))) ! 1) = ''w1''
   \<and> status (objects (snd (startSession 2 2 None ''w1'' ''/p''
         (snd (startSession 1 1 None ''w1'' ''/p'' newSessionManager)))) ! 0) = Starting
   \<and> status (objects (snd (startSession 2 2 None ''w1'' ''/p''
         (snd (startSession 1 1 None ''w1'' ''/p'' newSessionManager)))) ! 1) = Starting"
  by (simp add: startSession_def activeSessionOf_def newSessionManager_def decimal_digits Let_def)

text \<open>
  Claim C1, amended: \<^verbatim>\<open>startSession\<close> is rejected, with the message that the workspace
  already has an active session and with the manager unchanged, when the workspace index
  holds a non-empty session id that is in the table with status \<open>Active\<close>.  In every other
  case (the index has no entry for the workspace, or the entry is the empty string, not in
  the table, or not \<open>Active\<close>) the start goes ahead, and the workspace index and every
  entry of the table other than the one under the pending id \<^verbatim>\<open>pending-<now>\<close> stay as
  they were: when the vendor's \<^verbatim>\<open>query()\<close> returns, the start returns the pending id and
  the table holds a new session in status \<open>Starting\<close> under that id; when \<^verbatim>\<open>query()\<close>
  throws, the start fails with the error thrown and the table has no entry under the
  pending id.
\<close>

theorem startSession_rejects_active_only:
  "(workspaceToSession m ws = Some sid \<and> sid \<noteq> [] \<and> sessions m sid = Some r
      \<and> status (objects m ! r) = Active
    \<longrightarrow> startSession t c qe ws dir m =
          (Inl (''Workspace '' @ ws @ '' already has an active session: '' @ sid), m))
   \<and> (\<not> (\<exists>sid r. workspaceToSession m ws = Some sid \<and> sid \<noteq> [] \<and> sessions m sid = Some r
            \<and> status (objects m ! r) = Active)
    \<longrightarrow> fst (startSession t c None ws dir m) = Inr (''pending-'' @ decimal t)
      \<and> sessions (snd (startSession t c None ws dir m)) (''pending-'' @ decimal t)
            = Some (length (objects m))
      \<and> (\<forall>k. k \<noteq> ''pending-'' @ decimal t
            \<longrightarrow> sessions (snd (startSession t c None ws dir m)) k = sessions m k)
      \<and> workspaceToSession (snd (startSession t c None ws dir m)) = workspaceToSession m
      \<and> objects (snd (startSession t c None ws dir m)) =
            objects m @ [\<lparr>sessionId = ''pending-'' @ decimal t, workspaceId = ws, cwd = dir,
               query = True, input = createInputStream, createdAt = c, status = Starting,
               callbackSessionId = None\<rparr>])
   \<and> (\<not> (\<exists>sid r. workspaceToSession m ws = Some sid \<and> sid \<noteq> [] \<and> sessions m sid = Some r
            \<and> status (objects m ! r) = Active)
    \<longrightarrow> fst (startSession t c (Some e) ws dir m) = Inl e
      \<and> sessions (snd (startSession t c (Some e) ws dir m)) (''pending-'' @ decimal t) = None
      \<and> (\<forall>k. k \<noteq> ''pending-'' @ decimal t
            \<longrightarrow> sessions (snd (startSession t c (Some e) ws dir m)) k = sessions m k)
      \<and> workspaceToSession (snd (startSession t c (Some e) ws dir m)) = workspaceToSession m
      \<and> objects (snd (startSession t c (Some e) ws dir m)) =
            objects m @ [\<lparr>sessionId = ''pending-'' @ decimal t, workspaceId = ws, cwd = dir,
               query = False, input = createInputStream, createdAt = c, status = Starting,
               callbackSessionId = None\<rparr>])"
proof -
  have busy: "startSession t c qe ws dir m =
          (Inl (''Workspace '' @ ws @ '' already has an active session: '' @ sid), m)"
    if "workspaceToSession m ws = Some sid \<and> sid \<noteq> [] \<and> sessions m sid = Some r
      \<and> status (objects m ! r) = Active"
    using that by (simp add: startSession_def activeSessionOf_def)
  have none: "activeSessionOf m ws = None"
    if "\<not> (\<exists>sid r. workspaceToSession m ws = Some sid \<and> sid \<noteq> [] \<and> sessions m sid = Some r
            \<and> status (objects m ! r) = Active)"
    using that by (auto simp: activeSessionOf_def split: option.splits)
  have returns: "startSession t c None ws dir m =
      (Inr (''pending-'' @ decimal t),
       m\<lparr>objects := objects m @ [\<lparr>sessionId = ''pending-'' @ decimal t, workspaceId = ws,
               cwd = dir, query = True, input = createInputStream, createdAt = c,
               status = Starting, callbackSessionId = None\<rparr>],
         sessions := (sessions m)(''pending-'' @ decimal t \<mapsto> length (objects m))\<rparr>)"
    if "activeSessionOf m ws = None"
    using that by (simp add: startSession_def Let_def)
  have throws: "startSession t c (Some e) ws dir m =
      (Inl e,
       m\<lparr>objects := objects m @ [\<lparr>sessionId = ''pending-'' @ decimal t, workspaceId = ws,
               cwd = dir, query = False, input = createInputStream, createdAt = c,
               status = Starting, callbackSessionId = None\<rparr>],
         sessions := (sessions m)(''pending-'' @ decimal t := None)\<rparr>)"
    if "activeSessionOf m ws = None"
    using that by (simp add: startSession_def Let_def)
  show ?thesis
  proof (intro conjI impI)
    assume "workspaceToSession m ws = Some sid \<and> sid \<noteq> [] \<and> sessions m sid = Some r
      \<and> status (objects m ! r) = Active"
    then show "startSession t c qe ws dir m =
          (Inl (''Workspace '' @ ws @ '' already has an active session: '' @ sid), m)"
      by (rule busy)
  qed (simp_all add: returns [OF none] throws [OF none])
qed

theorem startSession_rejects_active_only_witness:
  "startSession 2 2 None ''w1'' ''/p''
     (handleMessage 0 ''w1'' (SDKMessage (Some ''S1'') (SystemInit ''i''))
        (snd (startSession 1 1 None ''w1'' ''/p'' newSessionManager)))
   = (Inl ''Workspace w1 already has an active session: S1'',
      handleMessage 0 ''w1'' (SDKMessage (Some ''S1'') (SystemInit ''i''))
        (snd (startSession 1 1 None ''w1'' ''/p'' newSessionManager)))
   \<and> fst (startSession 1 1 None ''w1'' ''/p'' newSessionManager) = Inr ''pending-1''
   \<and> fst (startSession 1 1 (Some ''boom'') ''w1'' ''/p'' newSessionManager) = Inl ''boom''
   \<and> sessions (snd (startSession 1 1 (Some ''boom'') ''w1'' ''/p'' newSessionManager)) ''pending-1''
       = None"
proof -
  have active: "workspaceToSession
      (handleMessage 0 ''w1'' (SDKMessage (Some ''S1'') (SystemInit ''i''))
        (snd (startSession 1 1 None ''w1'' ''/p'' newSessionManager))) ''w1'' = Some ''S1''
    \<and> ''S1'' \<noteq> []
    \<and> sessions (handleMessage 0 ''w1'' (SDKMessage (Some ''S1'') (SystemInit ''i''))
        (snd (startSession 1 1 None ''w1'' ''/p'' newSessionManager))) ''S1'' = Some 0
    \<and> status (objects (handleMessage 0 ''w1'' (SDKMessage (Some ''S1'') (SystemInit ''i''))
        (snd (startSession 1 1 None ''w1'' ''/p'' newSessionManager))) ! 0) = Active"
    by (simp add: startSession_def activeSessionOf_def newSessionManager_def decimal_digits
        handleMessage_def promoted_def promote_def emit_def startsWith_def Let_def)
  have free: "\<not> (\<exists>sid r. workspaceToSession newSessionManager ''w1'' = Some sid \<and> sid \<noteq> []
      \<and> sessions newSessionManager sid = Some r
      \<and> status (objects newSessionManager ! r) = Active)"
    by (simp add: newSessionManager_def)
  from active free
    startSession_rejects_active_only [of
      "handleMessage 0 ''w1'' (SDKMessage (Some ''S1'') (SystemInit ''i''))
        (snd (startSession 1 1 None ''w1'' ''/p'' newSessionManager))"
      "''w1''" "''S1''" 0 2 2 None "''/p''" "''boom''"]
    startSession_rejects_active_only [of newSessionManager "''w1''" "''S1''" 0 1 1 None "''/p''"
      "''boom''"]
  show ?thesis by (simp add: decimal_digits)
qed

section \<open>Verification: the command loop\<close>

lemma closeSession_new:
  "closeSession sid (newSessionManager, p) = (newSessionManager, p)"
  by (simp add: closeSession_def newSessionManager_def)

lemma respond_new:
  "respond t d msg u (newPermissionHandler ms) = (False, newPermissionHandler ms)"
  by (simp add: respond_def newPermissionHandler_def)

lemma withQuery_new: "withQuery what sid newSessionManager = Inl (what @ sid)"
  by (simp add: withQuery_def newSessionManager_def)

lemma manager_new:
  "interrupt v sid newSessionManager = Inl (''Session not found: '' @ sid)"
  "listModels v sid newSessionManager = Inl (''Session not found or inactive: '' @ sid)"
  "getMcpStatus v sid newSessionManager = Inl (''Session not found or inactive: '' @ sid)"
  "rewindFiles v sid u d newSessionManager = Inl (''Session not found or inactive: '' @ sid)"
  "setMcpServers v sid srv newSessionManager = Inl (''Session not found or inactive: '' @ sid)"
  "listCommands v sidOpt newSessionManager = Inr ''[]''"
  by (simp_all add: interrupt_def listModels_def getMcpStatus_def rewindFiles_def
      setMcpServers_def listCommands_def withQuery_new split: option.splits)
    (simp add: newSessionManager_def)

lemma handleCommand_newBridge:
  "handleCommand env (SessionStart ws dir opts) newBridge = (Inl ''Bridge not initialized'', newBridge)"
  "handleCommand env (SessionResume ws sid dir) newBridge = (Inl ''Bridge not initialized'', newBridge)"
  "handleCommand env (MessageSend sid ws message images messageId) newBridge =
     (Inl ''Bridge not initialized'', newBridge)"
  "handleCommand env (MessageInterrupt sid) newBridge = (Inl (''Session not found: '' @ sid), newBridge)"
  "handleCommand env (ModelList sidOpt) newBridge =
     (Inl (case sidOpt of None \<Rightarrow> ''sessionId required for model listing''
           | Some s \<Rightarrow> if s = [] then ''sessionId required for model listing''
                       else ''Session not found or inactive: '' @ s), newBridge)"
  "handleCommand env (ModelSet sid model) newBridge =
     (Inl (''Session not found or not active: '' @ sid), newBridge)"
  "handleCommand env (McpStatus sid) newBridge =
     (Inl (''Session not found or inactive: '' @ sid), newBridge)"
  "handleCommand env (SessionRewind sid userMessageId dryRun) newBridge =
     (Inl (''Session not found or inactive: '' @ sid), newBridge)"
  "handleCommand env (McpSet sid servers) newBridge =
     (Inl (''Session not found or inactive: '' @ sid), newBridge)"
  "handleCommand env (UnknownMethod method) newBridge = (Inl (''Unknown method: '' @ method), newBridge)"
  "handleCommand env (PermissionRespond params) newBridge = (Inr (Success False), newBridge)"
  "handleCommand env (CommandList sidOpt) newBridge = (Inr (Commands ''[]''), newBridge)"
  "handleCommand env (SessionClose sid) newBridge = (Inr (Success True), newBridge)"
  by (simp_all add: newBridge_def handleSessionStart_def handleSessionResume_def
      handleMessageSend_def handleMessageInterrupt_def handleModelList_def handleModelSet_def
      handleMcpStatus_def handleRewindFiles_def handleSetMcpServers_def handleCommandList_def
      handleSessionClose_def handlePermissionRespond_def closeSession_new respond_new
      withQuery_new manager_new split: option.splits)

lemma bridge_step_newBridge: "\<not> initializes i \<Longrightarrow> bridge_step newBridge i = newBridge"
proof (cases i)
  case (CommandLine env cid cmd)
  assume "\<not> initializes i"
  then show ?thesis using CommandLine
    by (cases cmd) (simp_all add: serve_def handleCommand_newBridge del: handleCommand.simps)
next
  case (VendorMessage r msg)
  then show ?thesis by (simp add: newBridge_def newSessionManager_def)
next
  case (LoopEnd r err)
  then show ?thesis by (simp add: newBridge_def newSessionManager_def)
next
  case (ToolUse r toolName toolUseID)
  then show ?thesis by (simp add: newBridge_def newSessionManager_def)
next
  case (TimerFires n)
  then show ?thesis by (simp add: newBridge_def newPermissionHandler_def timerFire_def)
next
  case (AbortSignal n)
  then show ?thesis by (simp add: newBridge_def newPermissionHandler_def abort_def)
qed

lemma run_bridge_newBridge:
  "\<forall>i\<in>set ins. \<not> initializes i \<Longrightarrow> run_bridge ins newBridge = newBridge"
  by (induction ins) (simp_all add: run_bridge_def bridge_step_newBridge)


section \<open>Commands before \<^verbatim>\<open>initialize\<close>\<close>

text \<open>
  Claim C4, as stated: every method other than \<^verbatim>\<open>session/close\<close> fails with an error
  response before a successful \<^verbatim>\<open>initialize\<close>.  It fails for two methods: in the new
  bridge \<^verbatim>\<open>command/list\<close> is answered with the result \<^verbatim>\<open>{commands: []}\<close> and
  \<^verbatim>\<open>permission/respond\<close> with the result \<^verbatim>\<open>{success: false}\<close>.
\<close>

theorem uninitialized_commands_counterexample:
  "fst (serve idle_env 1 (CommandList None) newBridge) = ResultResponse 1 (Commands ''[]'')
   \<and> fst (serve idle_env 2
          (PermissionRespond \<lparr>prSessionId = ''S1'', prToolUseId = ''T1'', prDecision = ''allow'',
             prMessage = None, prUpdatedPermissions = None\<rparr>) newBridge)
       = ResultResponse 2 (Success False)"
  by (simp add: serve_def handleCommand_newBridge del: handleCommand.simps)

text \<open>
  Claim C4, amended: as long as no \<^verbatim>\<open>initialize\<close> command has arrived, whatever else has
  (commands, and any event of a session or of a permission request, none of which can
  exist yet), the bridge is in its initial state and stays there, and
  \<^verbatim>\<open>session/start\<close>, \<^verbatim>\<open>session/resume\<close> and \<^verbatim>\<open>message/send\<close> fail with
  \<^verbatim>\<open>Bridge not initialized\<close>; \<^verbatim>\<open>message/interrupt\<close>, \<^verbatim>\<open>model/list\<close>, \<^verbatim>\<open>model/set\<close>,
  \<^verbatim>\<open>mcp/status\<close>, \<^verbatim>\<open>mcp/set\<close> and \<^verbatim>\<open>session/rewind\<close> fail with an error response
  because there is no session (\<^verbatim>\<open>model/list\<close> also when it names none);
  \<^verbatim>\<open>permission/respond\<close> is answered with \<^verbatim>\<open>{success: false}\<close>, \<^verbatim>\<open>command/list\<close> with the
  empty list and \<^verbatim>\<open>session/close\<close> with \<^verbatim>\<open>{success: true}\<close>.
\<close>

theorem commands_before_initialize:
  assumes "\<forall>i\<in>set ins. \<not> initializes i"
  shows "serve env cid (SessionStart ws dir opts) (run_bridge ins newBridge) =
           (ErrorResponse cid ''Bridge not initialized'', newBridge)
    \<and> serve env cid (SessionResume ws sid dir) (run_bridge ins newBridge) =
           (ErrorResponse cid ''Bridge not initialized'', newBridge)
    \<and> serve env cid (MessageSend sid ws message images messageId) (run_bridge ins newBridge) =
           (ErrorResponse cid ''Bridge not initialized'', newBridge)
    \<and> serve env cid (MessageInterrupt sid) (run_bridge ins newBridge) =
           (ErrorResponse cid (''Session not found: '' @ sid), newBridge)
    \<and> serve env cid (ModelList None) (run_bridge ins newBridge) =
           (ErrorResponse cid ''sessionId required for model listing'', newBridge)
    \<and> serve env cid (ModelList (Some sid)) (run_bridge ins newBridge) =
           (ErrorResponse cid (if sid = [] then ''sessionId required for model listing''
                               else ''Session not found or inactive: '' @ sid), newBridge)
    \<and> serve env cid (ModelSet sid model) (run_bridge ins newBridge) =
           (ErrorResponse cid (''Session not found or not active: '' @ sid), newBridge)
    \<and> serve env cid (McpStatus sid) (run_bridge ins newBridge) =
           (ErrorResponse cid (''Session not found or inactive: '' @ sid), newBridge)
    \<and> serve env cid (McpSet sid servers) (run_bridge ins newBridge) =
           (ErrorResponse cid (''Session not found or inactive: '' @ sid), newBridge)
    \<and> serve env cid (SessionRewind sid userMessageId dryRun) (run_bridge ins newBridge) =
           (ErrorResponse cid (''Session not found or inactive: '' @ sid), newBridge)
    \<and> serve env cid (PermissionRespond params) (run_bridge ins newBridge) =
           (ResultResponse cid (Success False), newBridge)
    \<and> serve env cid (CommandList sidOpt) (run_bridge ins newBridge) =
           (ResultResponse cid (Commands ''[]''), newBridge)
    \<and> serve env cid (SessionClose sid) (run_bridge ins newBridge) =
           (ResultResponse cid (Success True), newBridge)"
  using assms
  by (simp add: run_bridge_newBridge serve_def handleCommand_newBridge del: handleCommand.simps)

theorem commands_before_initialize_witness:
  "serve idle_env 3 (SessionStart ''w1'' ''/p'' [])
     (run_bridge [CommandLine idle_env 1 (SessionClose ''S1''),
                  CommandLine idle_env 2 (MessageInterrupt ''S1'')] newBridge)
   = (ErrorResponse 3 ''Bridge not initialized'', newBridge)
   \<and> serve idle_env 3 (McpStatus ''S1'')
     (run_bridge [CommandLine idle_env 1 (SessionClose ''S1''),
                  CommandLine idle_env 2 (MessageInterrupt ''S1'')] newBridge)
   = (ErrorResponse 3 ''Session not found or inactive: S1'', newBridge)
   \<and> serve idle_env 3 (CommandList (Some ''S1''))
     (run_bridge [CommandLine idle_env 1 (SessionClose ''S1''),
                  CommandLine idle_env 2 (MessageInterrupt ''S1'')] newBridge)
   = (ResultResponse 3 (Commands ''[]''), newBridge)"
proof -
  have "\<forall>i\<in>set [CommandLine idle_env 1 (SessionClose ''S1''),
                  CommandLine idle_env 2 (MessageInterrupt ''S1'')]. \<not> initializes i"
    by simp
  from commands_before_initialize [OF this, of idle_env 3 "''w1''" "''/p''" "[]" "''S1''"]
  show ?thesis by simp
qed

section \<open>Verification: promotion of the pending id\<close>













section \<open>Promotion of the pending id\<close>




end
